theory Spec2Isabelle
  imports Main "HOL-Library.Sublist"
begin

section \<open>Documents, bytes and runes\<close>

text \<open>
  A document is the \<open>[]byte\<close> that \<open>processFile\<close> reads: a list of 8-bit characters.
  The token is a Go \<open>string\<close>, also an arbitrary byte sequence.  Go's \<open>regexp\<close> package
  walks a byte slice rune by rune with \<open>utf8.DecodeRune\<close>; a rune is a code point.
\<close>

type_synonym rune = nat

definition RuneError :: rune where
  "RuneError = 0xFFFD"

text \<open>The table \<open>first\<close> of package \<open>utf8\<close>: the length announced by a leading byte
  (1 for ASCII and for bytes that cannot start a sequence).\<close>

definition lead_size :: "nat \<Rightarrow> nat" where
  "lead_size b =
     (if 0xC2 \<le> b \<and> b \<le> 0xDF then 2
      else if 0xE0 \<le> b \<and> b \<le> 0xEF then 3
      else if 0xF0 \<le> b \<and> b \<le> 0xF4 then 4
      else 1)"

text \<open>The table \<open>acceptRanges\<close>: the bounds of the second byte.\<close>

definition accept_lo :: "nat \<Rightarrow> nat" where
  "accept_lo b = (if b = 0xE0 then 0xA0 else if b = 0xF0 then 0x90 else 0x80)"

definition accept_hi :: "nat \<Rightarrow> nat" where
  "accept_hi b = (if b = 0xED then 0x9F else if b = 0xF4 then 0x8F else 0xBF)"

text \<open>\<open>utf8.DecodeRune\<close>: the rune at the head of the bytes and its width; an invalid
  or truncated sequence is \<open>(RuneError, 1)\<close>, no bytes at all \<open>(RuneError, 0)\<close>.  The masks
  \<open>p0 & 0x1F\<close>, \<open>b & 0x3F\<close> are written as remainders.\<close>

definition decodeRune :: "string \<Rightarrow> rune \<times> nat" where
  "decodeRune p =
     (case p of
        [] \<Rightarrow> (RuneError, 0)
      | c0 # _ \<Rightarrow>
          (let p0 = of_char c0; sz = lead_size p0 in
           if sz = 1 then (if p0 < 0x80 then p0 else RuneError, 1)
           else if length p < sz then (RuneError, 1)
           else
             (let b1 = of_char (p ! 1) in
              if b1 < accept_lo p0 \<or> accept_hi p0 < b1 then (RuneError, 1)
              else if sz \<le> 2 then (p0 mod 32 * 64 + b1 mod 64, 2)
              else
                (let b2 = of_char (p ! 2) in
                 if b2 < 0x80 \<or> 0xBF < b2 then (RuneError, 1)
                 else if sz \<le> 3 then (p0 mod 16 * 4096 + b1 mod 64 * 64 + b2 mod 64, 3)
                 else
                   (let b3 = of_char (p ! 3) in
                    if b3 < 0x80 \<or> 0xBF < b3 then (RuneError, 1)
                    else (p0 mod 8 * 262144 + b1 mod 64 * 4096 + b2 mod 64 * 64
                            + b3 mod 64, 4))))))"

text \<open>\<open>utf8.RuneLen\<close> for a rune beyond ASCII.\<close>

definition rune_width :: "rune \<Rightarrow> nat" where
  "rune_width x = (if x < 0x800 then 2 else if x < 0x10000 then 3 else 4)"

text \<open>A continuation byte \<open>10xxxxxx\<close>.\<close>

definition continuation :: "char \<Rightarrow> bool" where
  "continuation c \<longleftrightarrow> 128 \<le> (of_char c :: nat) \<and> (of_char c :: nat) \<le> 191"

text \<open>\<open>syntax.IsWordChar\<close>: the ASCII letters, digits and underscore.\<close>

definition is_word_rune :: "rune \<Rightarrow> bool" where
  "is_word_rune r \<longleftrightarrow>
     (0x41 \<le> r \<and> r \<le> 0x5A) \<or> (0x61 \<le> r \<and> r \<le> 0x7A) \<or> (0x30 \<le> r \<and> r \<le> 0x39) \<or> r = 0x5F"

definition is_word_byte :: "char \<Rightarrow> bool" where
  "is_word_byte c = is_word_rune (of_char c)"

section \<open>The regular expressions of package regexp\<close>

text \<open>
  The operators that occur in the program's patterns, named as in \<open>regexp/syntax\<close>.
  A literal carries the \<open>FoldCase\<close> flag of \<open>(?i)\<close>; a character class is a list of
  rune ranges; \<open>Plus\<close> is only ever applied to a character class (\<open>[a-z]+\<close>, \<open>\w+\<close>),
  so it takes the class.  Capture groups do not change what is matched and are left out.
\<close>

datatype regex =
    EmptyMatch
  | Literal bool rune
  | CharClass "(rune \<times> rune) list"
  | WordBoundary
  | Concat regex regex
  | Alternate regex regex
  | Quest regex
  | Plus "(rune \<times> rune) list"

text \<open>The orbit of a rune under \<open>unicode.SimpleFold\<close>, for the ASCII runes of the
  patterns: besides the other case of a letter, \<open>k\<close> folds to the Kelvin sign U+212A
  and \<open>s\<close> to the long s U+017F.\<close>

definition fold_orbit :: "rune \<Rightarrow> rune list" where
  "fold_orbit r =
     (if r = 0x4B \<or> r = 0x6B then [0x4B, 0x6B, 0x212A]
      else if r = 0x53 \<or> r = 0x73 then [0x53, 0x73, 0x17F]
      else if 0x41 \<le> r \<and> r \<le> 0x5A then [r, r + 32]
      else if 0x61 \<le> r \<and> r \<le> 0x7A then [r - 32, r]
      else [r])"

definition literal_ok :: "bool \<Rightarrow> rune \<Rightarrow> rune \<Rightarrow> bool" where
  "literal_ok fc r x \<longleftrightarrow> (if fc then x \<in> set (fold_orbit r) else x = r)"

definition in_class :: "(rune \<times> rune) list \<Rightarrow> rune \<Rightarrow> bool" where
  "in_class rs x \<longleftrightarrow> list_ex (\<lambda>lh. fst lh \<le> x \<and> x \<le> snd lh) rs"

text \<open>One step of the matcher on one rune: the width consumed, when the rune at the
  head is accepted.  At the end of the text nothing is accepted.\<close>

definition match_rune :: "(rune \<Rightarrow> bool) \<Rightarrow> string \<Rightarrow> nat list" where
  "match_rune ok s =
     (if s = [] then [] else if ok (fst (decodeRune s)) then [snd (decodeRune s)] else [])"

text \<open>The context of a position, as \<open>inputBytes.context\<close> computes it: whether the byte
  before and the byte after are word characters (a byte beyond ASCII never is).\<close>

definition word_before :: "char option \<Rightarrow> bool" where
  "word_before p = (case p of None \<Rightarrow> False | Some c \<Rightarrow> is_word_byte c)"

definition word_after :: "string \<Rightarrow> bool" where
  "word_after s = (case s of [] \<Rightarrow> False | c # _ \<Rightarrow> is_word_byte c)"

text \<open>\<open>\b\<close> holds where exactly one of the two is a word character.\<close>

definition at_word_boundary :: "char option \<Rightarrow> string \<Rightarrow> bool" where
  "at_word_boundary p s \<longleftrightarrow> word_before p \<noteq> word_after s"

text \<open>The byte before the position reached after consuming \<open>n\<close> bytes of \<open>s\<close>, when
  \<open>p\<close> is the byte before \<open>s\<close>.\<close>

definition prev_at :: "char option \<Rightarrow> string \<Rightarrow> nat \<Rightarrow> char option" where
  "prev_at p s n = (if take n s = [] then p else Some (last (take n s)))"

lemma decodeRune_width_pos: "s \<noteq> [] \<Longrightarrow> 0 < snd (decodeRune s)"
  by (cases s) (simp_all add: decodeRune_def Let_def)

lemma decodeRune_width_le: "snd (decodeRune s) \<le> length s"
proof (cases s)
  case Nil
  then show ?thesis by (simp add: decodeRune_def)
next
  case (Cons c cs)
  define sz where "sz = lead_size (of_char c)"
  have "snd (decodeRune s) = 1 \<or> (snd (decodeRune s) = sz \<and> \<not> length s < sz)"
    unfolding decodeRune_def Cons sz_def [symmetric] list.case Let_def
    by (simp add: sz_def lead_size_def)
  with Cons show ?thesis by auto
qed

text \<open>The greedy run of a character class: every number of bytes that one or more
  leading runes of the class can consume, the longest first.\<close>

function class_run :: "(rune \<times> rune) list \<Rightarrow> string \<Rightarrow> nat list" where
  "class_run rs s =
     (if s = [] \<or> \<not> in_class rs (fst (decodeRune s)) then []
      else map ((+) (snd (decodeRune s))) (class_run rs (drop (snd (decodeRune s)) s))
           @ [snd (decodeRune s)])"
  by pat_completeness auto
termination
  by (relation "measure (\<lambda>(rs, s). length s)") (auto simp: decodeRune_width_pos)

declare class_run.simps [simp del]

text \<open>
  The matcher.  \<open>ends re p s\<close> lists the lengths of all the matches of \<open>re\<close> that start
  at the head of \<open>s\<close>, \<open>p\<close> being the byte before it, in the order in which a
  backtracking search finds them: the first alternative before the second, a greedy
  \<open>?\<close> and \<open>+\<close> taking more before less.  The head of the list is the match that Go's
  leftmost-first semantics selects at this position.
\<close>

fun ends :: "regex \<Rightarrow> char option \<Rightarrow> string \<Rightarrow> nat list" where
  "ends EmptyMatch p s = [0]"
| "ends (Literal fc r) p s = match_rune (literal_ok fc r) s"
| "ends (CharClass rs) p s = match_rune (in_class rs) s"
| "ends WordBoundary p s = (if at_word_boundary p s then [0] else [])"
| "ends (Concat a b) p s =
     concat (map (\<lambda>n. map ((+) n) (ends b (prev_at p s n) (drop n s))) (ends a p s))"
| "ends (Alternate a b) p s = ends a p s @ ends b p s"
| "ends (Quest a) p s = ends a p s @ [0]"
| "ends (Plus rs) p s = class_run rs s"

lemma class_run_le: "n \<in> set (class_run rs s) \<Longrightarrow> n \<le> length s"
proof (induction rs s arbitrary: n rule: class_run.induct)
  case (1 rs s)
  show ?case
  proof (cases "s = [] \<or> \<not> in_class rs (fst (decodeRune s))")
    case True
    with "1.prems" show ?thesis by (subst (asm) class_run.simps) simp
  next
    case False
    let ?w = "snd (decodeRune s)"
    from False "1.prems" have "n = ?w \<or> (\<exists>m \<in> set (class_run rs (drop ?w s)). n = ?w + m)"
      by (subst (asm) class_run.simps) auto
    then show ?thesis
    proof
      assume "n = ?w" then show ?thesis by (simp add: decodeRune_width_le)
    next
      assume "\<exists>m \<in> set (class_run rs (drop ?w s)). n = ?w + m"
      then obtain m where m: "m \<in> set (class_run rs (drop ?w s))" "n = ?w + m" by blast
      from "1.IH"[OF False m(1)] have "m \<le> length s - ?w" by simp
      with m(2) decodeRune_width_le[of s] show ?thesis by simp
    qed
  qed
qed

lemma ends_le: "n \<in> set (ends re p s) \<Longrightarrow> n \<le> length s"
proof (induction re arbitrary: n p s)
  case (Concat a b)
  from Concat.prems obtain k m where k: "k \<in> set (ends a p s)"
    and m: "m \<in> set (ends b (prev_at p s k) (drop k s))" and n: "n = k + m"
    by auto
  from Concat.IH(1)[OF k] Concat.IH(2)[OF m] n show ?case by simp
qed (auto simp: match_rune_def decodeRune_width_le class_run_le split: if_splits)

section \<open>ReplaceAll and FindAll\<close>

text \<open>
  \<open>Regexp.ReplaceAllFunc\<close> (and \<open>ReplaceAll\<close> with a replacement that has no \<open>$\<close>):
  the search runs from the current position, trying each rune boundary in turn; the
  bytes before a match are copied, the match is replaced by \<open>repl\<close> of its text, and the
  search resumes at the end of the match.  An empty match is not replaced when it
  stands immediately after the previous match (flag \<open>after\<close>); after an empty match
  the search advances by one rune.
\<close>

function replaceAll_from ::
  "regex \<Rightarrow> (string \<Rightarrow> string) \<Rightarrow> bool \<Rightarrow> char option \<Rightarrow> string \<Rightarrow> string" where
  "replaceAll_from re repl after p s =
     (case ends re p s of
        [] \<Rightarrow>
          (if s = [] then []
           else take (snd (decodeRune s)) s
                  @ replaceAll_from re repl False (prev_at p s (snd (decodeRune s)))
                      (drop (snd (decodeRune s)) s))
      | n # _ \<Rightarrow>
          (if n = 0 then
             (if after then [] else repl [])
               @ (if s = [] then []
                  else take (snd (decodeRune s)) s
                         @ replaceAll_from re repl False (prev_at p s (snd (decodeRune s)))
                             (drop (snd (decodeRune s)) s))
           else repl (take n s) @ replaceAll_from re repl True (prev_at p s n) (drop n s)))"
  by pat_completeness auto
termination
proof (relation "measure (\<lambda>(re, repl, after, p, s). length s)", goal_cases)
  case 1
  show ?case by simp
next
  case (2 re repl after p s)
  then show ?case by (simp add: decodeRune_width_pos)
next
  case (3 re repl after p s n ns)
  then show ?case by (simp add: decodeRune_width_pos)
next
  case (4 re repl after p s n ns)
  then have "n \<in> set (ends re p s)" by simp
  then have "n \<le> length s" by (rule ends_le)
  with 4 show ?case by (cases s) auto
qed

declare replaceAll_from.simps [simp del]

definition replaceAll :: "regex \<Rightarrow> (string \<Rightarrow> string) \<Rightarrow> string \<Rightarrow> string" where
  "replaceAll re repl src = replaceAll_from re repl False None src"

text \<open>\<open>Regexp.FindAll(b, -1)\<close>: the texts of the successive matches, found by the same
  search; an empty match right after the previous match is not delivered.\<close>

function findAll_from :: "regex \<Rightarrow> bool \<Rightarrow> char option \<Rightarrow> string \<Rightarrow> string list" where
  "findAll_from re after p s =
     (case ends re p s of
        [] \<Rightarrow>
          (if s = [] then []
           else findAll_from re False (prev_at p s (snd (decodeRune s)))
                  (drop (snd (decodeRune s)) s))
      | n # _ \<Rightarrow>
          (if n = 0 then
             (if after then [] else [[]])
               @ (if s = [] then []
                  else findAll_from re False (prev_at p s (snd (decodeRune s)))
                         (drop (snd (decodeRune s)) s))
           else take n s # findAll_from re True (prev_at p s n) (drop n s)))"
  by pat_completeness auto
termination
proof (relation "measure (\<lambda>(re, after, p, s). length s)", goal_cases)
  case 1
  show ?case by simp
next
  case (2 re after p s)
  then show ?case by (simp add: decodeRune_width_pos)
next
  case (3 re after p s n ns)
  then show ?case by (simp add: decodeRune_width_pos)
next
  case (4 re after p s n ns)
  then have "n \<in> set (ends re p s)" by simp
  then have "n \<le> length s" by (rule ends_le)
  with 4 show ?case by (cases s) auto
qed

declare findAll_from.simps [simp del]

definition findAll :: "regex \<Rightarrow> string \<Rightarrow> string list" where
  "findAll re b = findAll_from re False None b"

section \<open>The patterns of the program\<close>

fun concat_re :: "regex list \<Rightarrow> regex" where
  "concat_re [] = EmptyMatch"
| "concat_re [r] = r"
| "concat_re (r # rs) = Concat r (concat_re rs)"

fun alternate_re :: "regex \<Rightarrow> regex list \<Rightarrow> regex" where
  "alternate_re r [] = r"
| "alternate_re r (r' # rs) = Alternate r (alternate_re r' rs)"

text \<open>A run of literal runes, and the literal text of a pattern (ASCII, one rune a byte).\<close>

definition literal_runes :: "bool \<Rightarrow> rune list \<Rightarrow> regex" where
  "literal_runes fc rs = concat_re (map (Literal fc) rs)"

definition literal :: "bool \<Rightarrow> string \<Rightarrow> regex" where
  "literal fc s = literal_runes fc (map of_char s)"

definition phrases :: "string \<Rightarrow> string list \<Rightarrow> regex" where
  "phrases w ws = alternate_re (literal True w) (map (literal True) ws)"

text \<open>\<open>\w\<close> is \<open>[0-9A-Za-z_]\<close> and \<open>\s\<close> is \<open>[\t\n\f\r ]\<close>.  Under \<open>(?i)\<close> the parser closes the
  class \<open>[a-z]\<close> under case folding: \<open>[A-Za-z]\<close>, the long s and the Kelvin sign.\<close>

definition perl_word :: "(rune \<times> rune) list" where
  "perl_word = [(0x30, 0x39), (0x41, 0x5A), (0x5F, 0x5F), (0x61, 0x7A)]"

definition perl_space :: "(rune \<times> rune) list" where
  "perl_space = [(0x09, 0x0A), (0x0C, 0x0D), (0x20, 0x20)]"

definition az_fold :: "(rune \<times> rune) list" where
  "az_fold = [(0x41, 0x5A), (0x61, 0x7A), (0x17F, 0x17F), (0x212A, 0x212A)]"

text \<open>\<open>(?:[a-z]+\s)?\<close>, the optional one-word qualifier, and \<open>\s?\<close>.\<close>

definition qualifier :: regex where
  "qualifier = Quest (Concat (Plus az_fold) (CharClass perl_space))"

definition opt_space :: regex where
  "opt_space = Quest (CharClass perl_space)"

text \<open>The two patterns that \<open>redact\<close> compiles locally (lines 102 and 103).\<close>

definition redact_piiRegex :: regex where
  "redact_piiRegex =
     concat_re [WordBoundary, qualifier,
       phrases ''SSN'' [''social security number'', ''driver's license'', ''passport'',
         ''credit card'', ''debit card'', ''bank account''],
       WordBoundary]"

definition redact_spiiRegex :: regex where
  "redact_spiiRegex =
     concat_re [WordBoundary, qualifier,
       phrases ''medical'' [''health'', ''insurance'', ''benefits'', ''prescription'',
         ''treatment''],
       opt_space, phrases ''information'' [''record''], WordBoundary]"

text \<open>The package-level patterns of the detector (lines 21 and 23): each is an
  alternation whose first branch is the pattern \<open>redact\<close> uses.\<close>

definition piiRegex :: regex where
  "piiRegex =
     Alternate redact_piiRegex
       (Alternate
          (concat_re [WordBoundary, qualifier,
             phrases ''first'' [''last'', ''middle'', ''maiden'', ''previous'', ''current''],
             opt_space, phrases ''name'' [''initials''], WordBoundary])
          (concat_re [WordBoundary, qualifier,
             phrases ''phone'' [''fax'', ''email'', ''address'', ''city'', ''state'', ''zip'',
               ''postal''],
             opt_space, phrases ''number'' [''code''], WordBoundary]))"

definition spiiRegex :: regex where
  "spiiRegex =
     Alternate redact_spiiRegex
       (concat_re [WordBoundary, qualifier,
          phrases ''ethnicity'' [''race'', ''sexual'', ''gender'', ''religion''],
          opt_space, phrases ''identity'' [''orientation''], WordBoundary])"

text \<open>The detector of \<open>processFile\<close>: the numbers of matches it prints.\<close>

definition detect :: "string \<Rightarrow> nat \<times> nat" where
  "detect inputFile = (length (findAll piiRegex inputFile), length (findAll spiiRegex inputFile))"

section \<open>The three transformations\<close>

text \<open>\<open>tokenize\<close>: every match of \<open>\b(\w+)\b\<close> is replaced by the token.\<close>

definition tokenize_regex :: regex where
  "tokenize_regex = concat_re [WordBoundary, Plus perl_word, WordBoundary]"

definition tokenize :: "string \<Rightarrow> string \<Rightarrow> string" where
  "tokenize input token = replaceAll tokenize_regex (\<lambda>match. token) input"

text \<open>\<open>redact\<close>: the PII pass, then the SPII pass on its result.  The replacement
  \<open>[redacted]\<close> has no \<open>$\<close>, so \<open>ReplaceAll\<close> inserts it as it is.\<close>

definition redacted :: string where
  "redacted = ''[redacted]''"

definition redact :: "string \<Rightarrow> string" where
  "redact input =
     replaceAll redact_spiiRegex (\<lambda>match. redacted)
       (replaceAll redact_piiRegex (\<lambda>match. redacted) input)"

text \<open>
  \<open>detokenize\<close> compiles \<open>\b\<close>, the quoted token, \<open>\b\<close>.  \<open>regexp.QuoteMeta\<close> escapes
  the metacharacters, so the pattern is the literal text of the token, rune by rune;
  the parser rejects a pattern that is not valid UTF-8 and \<open>MustCompile\<close> then panics.
\<close>

datatype error = RegexpPanic | UnknownMode string

function runes_of :: "string \<Rightarrow> rune list option" where
  "runes_of s =
     (if s = [] then Some []
      else if decodeRune s = (RuneError, 1) then None
      else map_option ((#) (fst (decodeRune s))) (runes_of (drop (snd (decodeRune s)) s)))"
  by pat_completeness auto
termination
  by (relation "measure length") (auto simp: decodeRune_width_pos)

declare runes_of.simps [simp del]

definition detokenize_regex :: "string \<Rightarrow> error + regex" where
  "detokenize_regex token =
     (case runes_of token of
        None \<Rightarrow> Inl RegexpPanic
      | Some rs \<Rightarrow> Inr (concat_re [WordBoundary, literal_runes False rs, WordBoundary]))"

text \<open>\<open>strings.TrimSpace\<close> removes the leading and the trailing runes that
  \<open>unicode.IsSpace\<close> accepts.  From the right, \<open>utf8.DecodeLastRune\<close> yields a valid rune
  of width \<open>k\<close> exactly when the last \<open>k\<close> bytes decode to it.\<close>

definition is_space_rune :: "rune \<Rightarrow> bool" where
  "is_space_rune r \<longleftrightarrow>
     (0x09 \<le> r \<and> r \<le> 0x0D) \<or> r = 0x20 \<or> r = 0x85 \<or> r = 0xA0 \<or> r = 0x1680
     \<or> (0x2000 \<le> r \<and> r \<le> 0x200A) \<or> r = 0x2028 \<or> r = 0x2029 \<or> r = 0x202F
     \<or> r = 0x205F \<or> r = 0x3000"

function trimLeft :: "string \<Rightarrow> string" where
  "trimLeft s =
     (if s \<noteq> [] \<and> is_space_rune (fst (decodeRune s)) then trimLeft (drop (snd (decodeRune s)) s)
      else s)"
  by pat_completeness auto
termination
  by (relation "measure length") (auto simp: decodeRune_width_pos)

declare trimLeft.simps [simp del]

definition space_suffix :: "string \<Rightarrow> nat \<Rightarrow> bool" where
  "space_suffix s k \<longleftrightarrow>
     0 < k \<and> k \<le> length s \<and> snd (decodeRune (drop (length s - k) s)) = k
     \<and> is_space_rune (fst (decodeRune (drop (length s - k) s)))"

function trimRight :: "string \<Rightarrow> string" where
  "trimRight s =
     (case filter (space_suffix s) [1, 2, 3, 4] of
        [] \<Rightarrow> s
      | k # _ \<Rightarrow> trimRight (take (length s - k) s))"
  by pat_completeness auto
termination
proof (relation "measure length", goal_cases)
  case 1
  show ?case by simp
next
  case (2 s k ks)
  then have "k \<in> set (filter (space_suffix s) [1, 2, 3, 4])" by simp
  then have "k \<in> set [1, 2, 3, 4] \<and> space_suffix s k"
    by (simp only: set_filter mem_Collect_eq)
  then have "0 < k \<and> k \<le> length s" by (simp add: space_suffix_def)
  then show ?case by auto
qed

declare trimRight.simps [simp del]

definition trimSpace :: "string \<Rightarrow> string" where
  "trimSpace s = trimRight (trimLeft s)"

definition detokenize :: "string \<Rightarrow> string \<Rightarrow> error + string" where
  "detokenize input token =
     (case detokenize_regex token of
        Inl e \<Rightarrow> Inl e
      | Inr regex \<Rightarrow> Inr (replaceAll regex (\<lambda>match. trimSpace match) input))"

section \<open>processFile\<close>

text \<open>
  The switch on the mode (lines 170 to 181): an unknown mode is an error, and a panic
  of \<open>detokenize\<close> ends the program.
\<close>

definition transform :: "string \<Rightarrow> string \<Rightarrow> string \<Rightarrow> error + string" where
  "transform mode inputFile token =
     (if mode = ''tokenize'' then Inr (tokenize inputFile token)
      else if mode = ''detokenize'' then detokenize inputFile token
      else if mode = ''redact'' then Inr (redact inputFile)
      else Inl (UnknownMode mode))"

text \<open>
  The file system is a map from paths to contents.  The name of the output file
  (lines 184 to 192) and whether it can be written belong to the environment and are
  parameters.  The result is what the function prints, how it ends and the files
  afterwards.
\<close>

datatype message =
    CouldNotRead string
  | Found string nat nat
  | UnknownModeMessage string
  | CouldNotWrite string
  | Saved string string

datatype exit = Return | Panic

definition processFile ::
  "(string \<Rightarrow> string) \<Rightarrow> (string \<Rightarrow> bool) \<Rightarrow> (string \<rightharpoonup> string) \<Rightarrow>
     string \<Rightarrow> string \<Rightarrow> string \<Rightarrow> message list \<times> exit \<times> (string \<rightharpoonup> string)" where
  "processFile outputFile writable files file mode token =
     (case files file of
        None \<Rightarrow> ([CouldNotRead file], Return, files)
      | Some inputFile \<Rightarrow>
          (let found = Found file (fst (detect inputFile)) (snd (detect inputFile)) in
           case transform mode inputFile token of
             Inl (UnknownMode m) \<Rightarrow> ([found, UnknownModeMessage m], Return, files)
           | Inl _ \<Rightarrow> ([found], Panic, files)
           | Inr output \<Rightarrow>
               if writable (outputFile file)
               then ([found, Saved file (outputFile file)], Return,
                     files(outputFile file \<mapsto> output))
               else ([found, CouldNotWrite (outputFile file)], Return, files)))"

section \<open>Definitions that follow the words of the specification\<close>

text \<open>
  The specification of \<open>tokenize\<close>: every maximal run of word characters is replaced
  by the token, and every other byte is kept in its place.  A word byte met by the
  recursion starts a run, since the byte before it (if any) is not a word byte; the
  run is the longest prefix of word bytes.
\<close>

function tokenize_spec :: "string \<Rightarrow> string \<Rightarrow> string" where
  "tokenize_spec [] T = []"
| "tokenize_spec (c # cs) T =
     (if is_word_byte c then T @ tokenize_spec (dropWhile is_word_byte cs) T
      else c # tokenize_spec cs T)"
  by pat_completeness auto
termination
  by (relation "measure (\<lambda>(s, T). length s)") (auto simp: length_dropWhile_le le_imp_less_Suc)

text \<open>\<open>\b\<close> holds after \<open>n\<close> bytes of \<open>s\<close>.\<close>

definition boundary :: "char option \<Rightarrow> string \<Rightarrow> nat \<Rightarrow> bool" where
  "boundary p s n \<longleftrightarrow> at_word_boundary (prev_at p s n) (drop n s)"







text \<open>
  The matches of a sequence of literal runes, as the list of their lengths: what
  \<open>ends\<close> computes for \<open>literal_runes\<close>, without the byte before the match, which a
  literal does not look at.
\<close>

fun literal_ends :: "bool \<Rightarrow> rune list \<Rightarrow> string \<Rightarrow> nat list" where
  "literal_ends fc [] s = [0]"
| "literal_ends fc (r # rs) s =
     concat (map (\<lambda>n. map ((+) n) (literal_ends fc rs (drop n s)))
                 (match_rune (literal_ok fc r) s))"

text \<open>
  The degenerate documents of the specification: a document that consists solely of
  occurrences of the token and of non-word bytes.
\<close>

function only_tokens :: "string \<Rightarrow> string \<Rightarrow> bool" where
  "only_tokens T [] = True"
| "only_tokens T (c # cs) =
     (if \<not> is_word_byte c \<and> only_tokens T cs then True
      else if T \<noteq> [] \<and> prefix T (c # cs) then only_tokens T (drop (length T) (c # cs))
      else False)"
  by pat_completeness auto
termination
  by (relation "measure (\<lambda>(T, D). length D)") auto

text \<open>The number of word bytes of a string.\<close>

abbreviation wc :: "string \<Rightarrow> nat" where
  "wc s \<equiv> length (filter is_word_byte s)"

section \<open>Facts about UTF-8 decoding\<close>

text \<open>The decoder by the size its leading byte announces.\<close>

lemma lead_size_2: "194 \<le> b \<Longrightarrow> b \<le> 223 \<Longrightarrow> lead_size b = 2"
  by (simp add: lead_size_def)
lemma lead_size_3: "224 \<le> b \<Longrightarrow> b \<le> 239 \<Longrightarrow> lead_size b = 3"
  by (simp add: lead_size_def)
lemma lead_size_4: "240 \<le> b \<Longrightarrow> b \<le> 244 \<Longrightarrow> lead_size b = 4"
  by (simp add: lead_size_def)

lemma decodeRune_2:
  assumes "194 \<le> (of_char c :: nat)" "(of_char c :: nat) \<le> 223"
  shows "decodeRune (c # cs) =
     (case cs of c1 # _ \<Rightarrow> if continuation c1 then (of_char c mod 32 * 64 + of_char c1 mod 64, 2)
                          else (RuneError, 1)
      | [] \<Rightarrow> (RuneError, 1))"
proof -
  have a: "accept_lo (of_char c) = 128" "accept_hi (of_char c) = 191"
    using assms by (simp_all add: accept_lo_def accept_hi_def)
  show ?thesis
    by (cases cs) (simp_all add: decodeRune_def Let_def lead_size_2[OF assms] a continuation_def not_less)
qed

lemma decodeRune_3:
  assumes "224 \<le> (of_char c :: nat)" "(of_char c :: nat) \<le> 239"
  shows "decodeRune (c # cs) =
     (case cs of c1 # c2 # _ \<Rightarrow>
        if accept_lo (of_char c) \<le> of_char c1 \<and> of_char c1 \<le> accept_hi (of_char c) \<and> continuation c2
        then (of_char c mod 16 * 4096 + of_char c1 mod 64 * 64 + of_char c2 mod 64, 3)
        else (RuneError, 1)
      | _ \<Rightarrow> (RuneError, 1))"
proof (cases cs)
  case Nil
  then show ?thesis by (simp add: decodeRune_def Let_def lead_size_3[OF assms])
next
  case (Cons c1 cs1)
  show ?thesis
  proof (cases cs1)
    case Nil
    with Cons show ?thesis by (simp add: decodeRune_def Let_def lead_size_3[OF assms])
  next
    case (Cons c2 cs2)
    with \<open>cs = c1 # cs1\<close> show ?thesis
      by (simp add: decodeRune_def Let_def lead_size_3[OF assms] continuation_def not_less)
  qed
qed

lemma decodeRune_4:
  assumes "240 \<le> (of_char c :: nat)" "(of_char c :: nat) \<le> 244"
  shows "decodeRune (c # cs) =
     (case cs of c1 # c2 # c3 # _ \<Rightarrow>
        if accept_lo (of_char c) \<le> of_char c1 \<and> of_char c1 \<le> accept_hi (of_char c)
           \<and> continuation c2 \<and> continuation c3
        then (of_char c mod 8 * 262144 + of_char c1 mod 64 * 4096 + of_char c2 mod 64 * 64
                + of_char c3 mod 64, 4)
        else (RuneError, 1)
      | _ \<Rightarrow> (RuneError, 1))"
proof (cases cs)
  case Nil
  then show ?thesis by (simp add: decodeRune_def Let_def lead_size_4[OF assms])
next
  case c1: (Cons c1 cs1)
  show ?thesis
  proof (cases cs1)
    case Nil
    with c1 show ?thesis by (simp add: decodeRune_def Let_def lead_size_4[OF assms])
  next
    case c2: (Cons c2 cs2)
    show ?thesis
    proof (cases cs2)
      case Nil
      with c1 c2 show ?thesis by (simp add: decodeRune_def Let_def lead_size_4[OF assms])
    next
      case (Cons c3 cs3)
      with c1 c2 show ?thesis
        by (simp add: decodeRune_def Let_def lead_size_4[OF assms] continuation_def not_less)
    qed
  qed
qed

lemma decodeRune_1:
  assumes "(of_char c :: nat) < 194 \<or> 244 < (of_char c :: nat)"
  shows "decodeRune (c # cs) = (if (of_char c :: nat) < 128 then of_char c else RuneError, 1)"
  using assms by (auto simp add: decodeRune_def Let_def lead_size_def)


lemma mod_offset: "a * m \<le> (n::nat) \<Longrightarrow> n < a * m + m \<Longrightarrow> n mod m = n - a * m"
proof -
  assume h: "a * m \<le> n" "n < a * m + m"
  define k where "k = n - a * m"
  with h have "n = k + a * m" "k < m" by simp_all
  then show ?thesis by simp
qed

lemma continuation_mod: "continuation c \<Longrightarrow> (of_char c :: nat) mod 64 = of_char c - 128"
  using mod_offset[of 2 64 "of_char c"] by (simp add: continuation_def)

lemma accept_continuation:
  "accept_lo b \<le> of_char c \<Longrightarrow> of_char c \<le> accept_hi b \<Longrightarrow> continuation c"
  by (auto simp: accept_lo_def accept_hi_def continuation_def split: if_splits)

lemma take_2_Cons: "take 2 (a # b # r) = [a, b]"
  by (simp add: numeral_2_eq_2)

lemma take_3_Cons: "take 3 (a # b # c # r) = [a, b, c]"
  by (simp add: numeral_3_eq_3)

lemma take_4_Cons: "take 4 (a # b # c # d # r) = [a, b, c, d]"
  by (simp add: numeral_eq_Suc)

lemma decodeRune_Cons_cases:
  obtains
    (ascii) "(of_char c :: nat) < 128" "decodeRune (c # cs) = (of_char c, 1)"
  | (invalid) "128 \<le> (of_char c :: nat)" "decodeRune (c # cs) = (RuneError, 1)"
  | (wide) x w where "decodeRune (c # cs) = (x, w)" "2 \<le> w" "w \<le> length (c # cs)"
      "194 \<le> (of_char c :: nat)" "128 \<le> x"
      "\<And>k. 0 < k \<Longrightarrow> k < w \<Longrightarrow> continuation ((c # cs) ! k)"
      "\<And>t. decodeRune (take w (c # cs) @ t) = (x, w)"
      "w = rune_width x"
proof -
  let ?p0 = "of_char c :: nat"
  consider
      (1) "?p0 < 194 \<or> 244 < ?p0"
    | (2) "194 \<le> ?p0" "?p0 \<le> 223"
    | (3) "224 \<le> ?p0" "?p0 \<le> 239"
    | (4) "240 \<le> ?p0" "?p0 \<le> 244"
    by linarith
  then show thesis
  proof cases
    case 1
    from decodeRune_1[OF 1, of cs] show thesis
      using ascii invalid by (cases "?p0 < 128") simp_all
  next
    case 2
    note eq = decodeRune_2[OF 2]
    show thesis
    proof (cases "\<exists>c1 cs'. cs = c1 # cs' \<and> continuation c1")
      case False
      then have "decodeRune (c # cs) = (RuneError, 1)"
        by (cases cs) (simp_all add: eq)
      with 2 invalid show thesis by simp
    next
      case True
      then obtain c1 cs' where cs: "cs = c1 # cs'" and c1: "continuation c1" by blast
      let ?x = "?p0 mod 32 * 64 + of_char c1 mod 64"
      have d: "decodeRune (c # c1 # t) = (?x, 2)" for t
        using c1 by (simp add: eq)
      have m0: "?p0 mod 32 = ?p0 - 192" using 2 mod_offset[of 6 32 ?p0] by simp
      have m1: "(of_char c1 :: nat) mod 64 = of_char c1 - 128" by (rule continuation_mod[OF c1])
      have b1: "128 \<le> (of_char c1 :: nat)" "(of_char c1 :: nat) \<le> 191"
        using c1 by (simp_all add: continuation_def)
      have x: "128 \<le> ?x" "?x < 2048" unfolding m0 m1 using 2 b1 by simp_all
      show thesis
      proof (rule wide[of ?x 2])
        show "decodeRune (c # cs) = (?x, 2)" using d cs by simp
        show "\<And>k. 0 < k \<Longrightarrow> k < 2 \<Longrightarrow> continuation ((c # cs) ! k)"
          using c1 cs by (simp add: nth_Cons')
        show "\<And>t. decodeRune (take 2 (c # cs) @ t) = (?x, 2)"
          using d cs by (simp add: take_2_Cons)
        show "128 \<le> ?x" by (rule x)
        show "194 \<le> ?p0" by (rule 2)
        show "2 \<le> length (c # cs)" using cs by simp
        show "2 = rune_width ?x" using x by (simp add: rune_width_def)
      qed simp_all
    qed
  next
    case 3
    note eq = decodeRune_3[OF 3]
    show thesis
    proof (cases "\<exists>c1 c2 cs'. cs = c1 # c2 # cs' \<and> accept_lo ?p0 \<le> of_char c1
                    \<and> of_char c1 \<le> accept_hi ?p0 \<and> continuation c2")
      case False
      then have "decodeRune (c # cs) = (RuneError, 1)"
        by (cases cs; cases "tl cs") (simp_all add: eq)
      with 3 invalid show thesis by simp
    next
      case True
      then obtain c1 c2 cs' where cs: "cs = c1 # c2 # cs'"
        and c1: "accept_lo ?p0 \<le> of_char c1" "of_char c1 \<le> accept_hi ?p0"
        and c2: "continuation c2" by blast
      let ?x = "?p0 mod 16 * 4096 + of_char c1 mod 64 * 64 + of_char c2 mod 64"
      have d: "decodeRune (c # c1 # c2 # t) = (?x, 3)" for t
        using c1 c2 by (simp add: eq)
      have c1': "continuation c1" using c1 by (rule accept_continuation)
      have m0: "?p0 mod 16 = ?p0 - 224" using 3 mod_offset[of 14 16 ?p0] by simp
      have m1: "(of_char c1 :: nat) mod 64 = of_char c1 - 128" by (rule continuation_mod[OF c1'])
      have m2: "(of_char c2 :: nat) mod 64 = of_char c2 - 128" by (rule continuation_mod[OF c2])
      have b1: "128 \<le> (of_char c1 :: nat)" "(of_char c1 :: nat) \<le> 191"
        using c1' by (simp_all add: continuation_def)
      have b2: "128 \<le> (of_char c2 :: nat)" "(of_char c2 :: nat) \<le> 191"
        using c2 by (simp_all add: continuation_def)
      have lo: "?p0 = 224 \<longrightarrow> 160 \<le> (of_char c1 :: nat)"
        using c1(1) by (auto simp: accept_lo_def)
      have x: "2048 \<le> ?x" "?x < 65536" unfolding m0 m1 m2 using 3 b1 b2 lo by auto
      show thesis
      proof (rule wide[of ?x 3])
        show "decodeRune (c # cs) = (?x, 3)" using d cs by simp
        show "\<And>k. 0 < k \<Longrightarrow> k < 3 \<Longrightarrow> continuation ((c # cs) ! k)"
        proof -
          fix k :: nat assume "0 < k" "k < 3"
          then have "k = 1 \<or> k = 2" by arith
          then show "continuation ((c # cs) ! k)" using c1' c2 cs by auto
        qed
        show "\<And>t. decodeRune (take 3 (c # cs) @ t) = (?x, 3)"
          using d cs by (simp add: take_3_Cons)
        show "128 \<le> ?x" using x by simp
        show "194 \<le> ?p0" using 3 by simp
        show "3 \<le> length (c # cs)" using cs by simp
        show "3 = rune_width ?x" using x by (simp add: rune_width_def)
      qed simp_all
    qed
  next
    case 4
    note eq = decodeRune_4[OF 4]
    show thesis
    proof (cases "\<exists>c1 c2 c3 cs'. cs = c1 # c2 # c3 # cs' \<and> accept_lo ?p0 \<le> of_char c1
                    \<and> of_char c1 \<le> accept_hi ?p0 \<and> continuation c2 \<and> continuation c3")
      case False
      then have "decodeRune (c # cs) = (RuneError, 1)"
        by (cases cs; cases "tl cs"; cases "tl (tl cs)") (simp_all add: eq)
      with 4 invalid show thesis by simp
    next
      case True
      then obtain c1 c2 c3 cs' where cs: "cs = c1 # c2 # c3 # cs'"
        and c1: "accept_lo ?p0 \<le> of_char c1" "of_char c1 \<le> accept_hi ?p0"
        and c2: "continuation c2" and c3: "continuation c3" by blast
      let ?x = "?p0 mod 8 * 262144 + of_char c1 mod 64 * 4096 + of_char c2 mod 64 * 64
                  + of_char c3 mod 64"
      have d: "decodeRune (c # c1 # c2 # c3 # t) = (?x, 4)" for t
        using c1 c2 c3 by (simp add: eq)
      have c1': "continuation c1" using c1 by (rule accept_continuation)
      have m0: "?p0 mod 8 = ?p0 - 240" using 4 mod_offset[of 30 8 ?p0] by simp
      have m1: "(of_char c1 :: nat) mod 64 = of_char c1 - 128" by (rule continuation_mod[OF c1'])
      have b1: "128 \<le> (of_char c1 :: nat)" "(of_char c1 :: nat) \<le> 191"
        using c1' by (simp_all add: continuation_def)
      have lo: "?p0 = 240 \<longrightarrow> 144 \<le> (of_char c1 :: nat)"
        using c1(1) by (auto simp: accept_lo_def)
      have "65536 \<le> ?p0 mod 8 * 262144 + of_char c1 mod 64 * 4096"
        unfolding m0 m1 using 4 b1 lo by auto
      then have x: "65536 \<le> ?x" by simp
      show thesis
      proof (rule wide[of ?x 4])
        show "decodeRune (c # cs) = (?x, 4)" using d cs by simp
        show "\<And>k. 0 < k \<Longrightarrow> k < 4 \<Longrightarrow> continuation ((c # cs) ! k)"
        proof -
          fix k :: nat assume "0 < k" "k < 4"
          then have "k = 1 \<or> k = 2 \<or> k = 3" by arith
          then show "continuation ((c # cs) ! k)" using c1' c2 c3 cs by auto
        qed
        show "\<And>t. decodeRune (take 4 (c # cs) @ t) = (?x, 4)"
          using d cs by (simp add: take_4_Cons)
        show "128 \<le> ?x" using x by simp
        show "194 \<le> ?p0" using 4 by simp
        show "4 \<le> length (c # cs)" using cs by simp
        show "4 = rune_width ?x" using x by (simp add: rune_width_def)
      qed simp_all
    qed
  qed
qed

section \<open>Evaluating the matcher on concrete documents\<close>

text \<open>
  Rewriting with the defining equations evaluates the model on a concrete document.
  The weak congruence rules make the simplifier compute the list of matches before it
  enters the function mapped over it, and the scrutinee of a case before its branches.
\<close>

lemma decodeRune_ascii: "of_char c < (128::nat) \<Longrightarrow> decodeRune (c # cs) = (of_char c, 1)"
  by (simp add: decodeRune_def lead_size_def)

lemma map_weak_cong: "xs = ys \<Longrightarrow> map f xs = map f ys"
  by simp

lemmas regex_defs = redact_piiRegex_def redact_spiiRegex_def piiRegex_def spiiRegex_def
  tokenize_regex_def qualifier_def opt_space_def phrases_def literal_def literal_runes_def
  perl_word_def perl_space_def az_fold_def

lemmas eval_simps = match_rune_def literal_ok_def in_class_def fold_orbit_def decodeRune_ascii
  at_word_boundary_def word_before_def word_after_def prev_at_def is_word_byte_def
  is_word_rune_def
  class_run.simps replaceAll_from.simps replaceAll_def findAll_from.simps findAll_def
  RuneError_def

lemmas detok_simps = detokenize_def detokenize_regex_def runes_of.simps trimSpace_def
  trimLeft.simps trimRight.simps is_space_rune_def space_suffix_def

lemma redact_My_SSN: "redact ''My SSN is 123-45-6789'' = ''[redacted] is 123-45-6789''"
  by (simp add: redact_def redacted_def regex_defs eval_simps
        cong: map_weak_cong list.case_cong_weak)

lemma redact_Patient: "redact ''Patient medical record attached'' = ''[redacted] attached''"
  by (simp add: redact_def redacted_def regex_defs eval_simps
        cong: map_weak_cong list.case_cong_weak)

lemma tokenize_Hello: "tokenize ''Hello world'' ''[TOKEN]'' = ''[TOKEN] [TOKEN]''"
  by (simp add: tokenize_def regex_defs eval_simps cong: map_weak_cong list.case_cong_weak)

lemma tokenize_TOKEN: "tokenize ''[TOKEN] [TOKEN]'' ''[TOKEN]'' = ''[[TOKEN]] [[TOKEN]]''"
  by (simp add: tokenize_def regex_defs eval_simps cong: map_weak_cong list.case_cong_weak)

section \<open>The matches of the pattern of tokenize\<close>

lemma word_byte_ascii: "is_word_byte c \<Longrightarrow> (of_char c :: nat) < 128"
  by (auto simp: is_word_byte_def is_word_rune_def)

lemma not_word_rune_ge: "128 \<le> x \<Longrightarrow> \<not> is_word_rune x"
  by (auto simp: is_word_rune_def)

lemma continuation_not_word: "continuation c \<Longrightarrow> \<not> is_word_byte c"
  by (auto simp: continuation_def is_word_byte_def is_word_rune_def)

lemma in_class_perl_word: "in_class perl_word x \<longleftrightarrow> is_word_rune x"
  by (auto simp: in_class_def perl_word_def is_word_rune_def)

lemma decodeRune_word: "is_word_byte c \<Longrightarrow> decodeRune (c # cs) = (of_char c, 1)"
  by (simp add: decodeRune_ascii word_byte_ascii)

lemma head_rune_word: "is_word_rune (fst (decodeRune (c # cs))) \<longleftrightarrow> is_word_byte c"
proof (cases rule: decodeRune_Cons_cases[of c cs])
  case ascii
  then show ?thesis by (simp add: is_word_byte_def)
next
  case invalid
  then show ?thesis
    using word_byte_ascii[of c] by (auto simp: RuneError_def is_word_rune_def)
next
  case (wide x w)
  then show ?thesis using word_byte_ascii[of c] not_word_rune_ge[of x] by auto
qed

lemma class_run_word_Nil: "class_run perl_word [] = []"
  by (subst class_run.simps) simp

lemma class_run_word_Cons:
  "class_run perl_word (c # cs) =
     (if is_word_byte c then map Suc (class_run perl_word cs) @ [1] else [])"
  by (subst class_run.simps) (simp add: in_class_perl_word head_rune_word decodeRune_word)

lemma prev_at_0: "prev_at p s 0 = p"
  by (simp add: prev_at_def)

lemma prev_at_Suc: "prev_at p (c # cs) (Suc n) = prev_at (Some c) cs n"
  by (simp add: prev_at_def)

lemma concat_map_guard:
  "concat (map (\<lambda>n. map ((+) n) (if P n then [0] else [])) xs) = filter P (xs :: nat list)"
  by (induction xs) auto

lemma map_add_0: "map ((+) (0::nat)) xs = xs"
  by (induction xs) auto

lemma boundary_0: "boundary p s 0 = at_word_boundary p s"
  by (simp add: boundary_def prev_at_0)

lemma ends_Concat_WordBoundary:
  "ends (Concat a WordBoundary) p s = filter (boundary p s) (ends a p s)"
  by (simp add: boundary_def [abs_def] concat_map_guard)

lemma ends_WordBoundary_Concat:
  "ends (Concat WordBoundary b) p s = (if at_word_boundary p s then ends b p s else [])"
  by (simp add: prev_at_0 map_add_0)

lemma ends_tokenize_regex:
  "ends tokenize_regex p s =
     (if at_word_boundary p s then filter (boundary p s) (class_run perl_word s) else [])"
  unfolding tokenize_regex_def concat_re.simps ends_WordBoundary_Concat ends_Concat_WordBoundary
  by simp

lemma word_run_ends:
  "word_after s \<Longrightarrow>
   filter (boundary p s) (class_run perl_word s) = [length (takeWhile is_word_byte s)]"
proof (induction s arbitrary: p)
  case Nil
  then show ?case by (simp add: word_after_def)
next
  case (Cons c cs)
  then have c: "is_word_byte c" by (simp add: word_after_def)
  have shift: "boundary p (c # cs) (Suc n) = boundary (Some c) cs n" for n
    by (simp add: boundary_def prev_at_Suc)
  have one: "boundary p (c # cs) 1 \<longleftrightarrow> \<not> word_after cs"
    using c by (simp add: boundary_def at_word_boundary_def prev_at_def word_before_def)
  show ?case
  proof (cases "word_after cs")
    case True
    from Cons.IH[OF True, of "Some c"] show ?thesis
      using c True one by (simp add: class_run_word_Cons filter_map comp_def shift)
  next
    case False
    then have "class_run perl_word cs = []"
      by (cases cs) (simp_all add: class_run_word_Nil class_run_word_Cons word_after_def)
    moreover from False have "takeWhile is_word_byte cs = []"
      by (cases cs) (simp_all add: word_after_def)
    ultimately show ?thesis using c False one by (simp add: class_run_word_Cons)
  qed
qed

lemma ends_tokenize_regex_word:
  assumes "\<not> word_before p" "word_after s"
  shows "ends tokenize_regex p s = [length (takeWhile is_word_byte s)]"
  using assms by (simp add: ends_tokenize_regex at_word_boundary_def word_run_ends)

lemma ends_tokenize_regex_nonword:
  assumes "\<not> word_after s"
  shows "ends tokenize_regex p s = []"
proof -
  from assms have "class_run perl_word s = []"
    by (cases s) (simp_all add: class_run_word_Nil class_run_word_Cons word_after_def)
  then show ?thesis by (simp add: ends_tokenize_regex)
qed


lemma replaceAll_from_nomatch:
  "ends re p s = [] \<Longrightarrow>
   replaceAll_from re repl a p s =
     (if s = [] then []
      else take (snd (decodeRune s)) s
             @ replaceAll_from re repl False (prev_at p s (snd (decodeRune s)))
                 (drop (snd (decodeRune s)) s))"
  by (subst replaceAll_from.simps) simp

lemma replaceAll_from_match:
  "ends re p s = n # ns \<Longrightarrow> n \<noteq> 0 \<Longrightarrow>
   replaceAll_from re repl a p s =
     repl (take n s) @ replaceAll_from re repl True (prev_at p s n) (drop n s)"
  by (subst replaceAll_from.simps) simp

lemma rune_step_nonword:
  assumes "\<not> is_word_byte c"
  shows "\<forall>b \<in> set (take (snd (decodeRune (c # cs))) (c # cs)). \<not> is_word_byte b"
proof (cases rule: decodeRune_Cons_cases[of c cs])
  case ascii
  with assms show ?thesis by simp
next
  case invalid
  with assms show ?thesis by simp
next
  case (wide x w)
  show ?thesis
  proof
    fix b assume "b \<in> set (take (snd (decodeRune (c # cs))) (c # cs))"
    then have "b \<in> set (take w (c # cs))" using wide(1) by simp
    then obtain k where k: "k < w" "k < length (c # cs)" "b = (c # cs) ! k"
      by (auto simp: in_set_conv_nth)
    show "\<not> is_word_byte b"
    proof (cases "k = 0")
      case True
      with k assms show ?thesis by simp
    next
      case False
      with k wide(6)[of k] show ?thesis by (simp add: continuation_not_word)
    qed
  qed
qed

lemma tokenize_spec_nonword_prefix:
  "\<forall>b \<in> set u. \<not> is_word_byte b \<Longrightarrow> tokenize_spec (u @ v) T = u @ tokenize_spec v T"
  by (induction u) auto

lemma tokenize_scan:
  "(word_before p \<longrightarrow> \<not> word_after s) \<Longrightarrow>
   replaceAll_from tokenize_regex (\<lambda>m. T) a p s = tokenize_spec s T"
proof (induction "length s" arbitrary: s p a rule: less_induct)
  case less
  show ?case
  proof (cases s)
    case Nil
    then have "ends tokenize_regex p s = []"
      by (simp add: ends_tokenize_regex_nonword word_after_def)
    with Nil show ?thesis by (simp add: replaceAll_from_nomatch)
  next
    case (Cons c cs)
    show ?thesis
    proof (cases "is_word_byte c")
      case True
      with Cons have wa: "word_after s" by (simp add: word_after_def)
      with less.prems have nb: "\<not> word_before p" by blast
      let ?L = "length (takeWhile is_word_byte s)"
      have L: "?L = Suc (length (takeWhile is_word_byte cs))" using Cons True by simp
      have e: "ends tokenize_regex p s = [?L]" using nb wa by (rule ends_tokenize_regex_word)
      have d: "drop ?L s = dropWhile is_word_byte cs"
        using Cons True dropWhile_eq_drop[of is_word_byte s] by simp
      have nw: "\<not> word_after (dropWhile is_word_byte cs)"
      proof (cases "dropWhile is_word_byte cs")
        case Nil
        show ?thesis unfolding Nil by (simp add: word_after_def)
      next
        case d: (Cons d ds)
        with hd_dropWhile[of is_word_byte cs] have "\<not> is_word_byte d" by simp
        then show ?thesis unfolding d by (simp add: word_after_def)
      qed
      have len: "length (dropWhile is_word_byte cs) < length s"
        using Cons length_dropWhile_le[of is_word_byte cs] by simp
      have "replaceAll_from tokenize_regex (\<lambda>m. T) a p s
              = T @ replaceAll_from tokenize_regex (\<lambda>m. T) True (prev_at p s ?L) (drop ?L s)"
        using e L by (simp add: replaceAll_from_match)
      also have "\<dots> = T @ tokenize_spec (dropWhile is_word_byte cs) T"
        using less.hyps[OF len, of "prev_at p s ?L" True] nw d by simp
      finally show ?thesis using Cons True by simp
    next
      case False
      with Cons have "\<not> word_after s" by (simp add: word_after_def)
      then have e: "ends tokenize_regex p s = []" by (rule ends_tokenize_regex_nonword)
      let ?w = "snd (decodeRune s)"
      have w: "0 < ?w" "?w \<le> length s"
        using Cons decodeRune_width_pos[of s] decodeRune_width_le[of s] by simp_all
      have nw: "\<forall>b \<in> set (take ?w s). \<not> is_word_byte b"
        using rune_step_nonword[OF False, of cs] Cons by simp
      have ne: "take ?w s \<noteq> []" using w Cons by simp
      then have "last (take ?w s) \<in> set (take ?w s)" by (rule last_in_set)
      with nw ne have nb: "\<not> word_before (prev_at p s ?w)"
        by (simp add: prev_at_def word_before_def)
      have len: "length (drop ?w s) < length s" using w Cons by simp
      have "replaceAll_from tokenize_regex (\<lambda>m. T) a p s
              = take ?w s @ replaceAll_from tokenize_regex (\<lambda>m. T) False (prev_at p s ?w) (drop ?w s)"
        using e Cons by (simp add: replaceAll_from_nomatch)
      also have "\<dots> = take ?w s @ tokenize_spec (drop ?w s) T"
        using less.hyps[OF len, of "prev_at p s ?w" False] nb by simp
      also have "\<dots> = tokenize_spec s T"
        using tokenize_spec_nonword_prefix[OF nw, of "drop ?w s" T] by simp
      finally show ?thesis .
    qed
  qed
qed

section \<open>The matches of the pattern of detokenize\<close>

text \<open>
  A match of the quoted token in a document decodes to the runes of the token.  Its
  bytes may differ from those of the token, since an invalid byte of the document
  decodes to U+FFFD, but its first and its last rune are those of the token; so
  \<open>strings.TrimSpace\<close> leaves the match as it is when it leaves the token as it is.
\<close>

lemma concat_map_single: "concat (map (\<lambda>n. map ((+) n) [0::nat]) xs) = xs"
  by (induction xs) auto

lemma ends_literal_runes: "ends (literal_runes fc rs) p s = literal_ends fc rs s"
proof (induction rs arbitrary: p s)
  case Nil
  show ?case by (simp add: literal_runes_def)
next
  case (Cons r rs)
  show ?case
  proof (cases rs)
    case Nil
    then show ?thesis by (simp add: literal_runes_def concat_map_single)
  next
    case inner: (Cons r' rs')
    have "ends (literal_runes fc (r # rs)) p s
            = concat (map (\<lambda>n. map ((+) n) (ends (literal_runes fc rs) (prev_at p s n) (drop n s)))
                          (match_rune (literal_ok fc r) s))"
      using inner by (simp add: literal_runes_def)
    then show ?thesis by (simp add: Cons.IH)
  qed
qed

lemma mem_add_image: "(n::nat) \<in> (+) w ` A \<longleftrightarrow> w \<le> n \<and> n - w \<in> A"
proof
  assume "n \<in> (+) w ` A"
  then obtain a where "a \<in> A" "n = w + a" by auto
  then show "w \<le> n \<and> n - w \<in> A" by simp
next
  assume h: "w \<le> n \<and> n - w \<in> A"
  then have "n = w + (n - w)" by simp
  with h show "n \<in> (+) w ` A" by blast
qed

lemma literal_ends_Cons_mem:
  "n \<in> set (literal_ends fc (r # rs) s) \<longleftrightarrow>
     s \<noteq> [] \<and> literal_ok fc r (fst (decodeRune s)) \<and> snd (decodeRune s) \<le> n
     \<and> n - snd (decodeRune s) \<in> set (literal_ends fc rs (drop (snd (decodeRune s)) s))"
  by (simp add: match_rune_def mem_add_image)

declare literal_ends.simps(2) [simp del]

lemma prev_at_add: "prev_at (prev_at p s w) (drop w s) k = prev_at p s (w + k)"
  by (simp add: prev_at_def take_add)

lemma replaceAll_from_empty:
  "ends re p s = 0 # ns \<Longrightarrow>
   replaceAll_from re repl a p s =
     (if a then [] else repl [])
       @ (if s = [] then []
          else take (snd (decodeRune s)) s
                 @ replaceAll_from re repl False (prev_at p s (snd (decodeRune s)))
                     (drop (snd (decodeRune s)) s))"
  by (subst replaceAll_from.simps) simp

lemma replaceAll_from_unchanged:
  assumes "\<And>k n. k \<le> length s \<Longrightarrow> n \<in> set (ends re (prev_at p s k) (drop k s)) \<Longrightarrow>
             repl (take n (drop k s)) = take n (drop k s)"
  shows "replaceAll_from re repl a p s = s"
  using assms
proof (induction "length s" arbitrary: s p a rule: less_induct)
  case less
  have here: "repl (take n s) = take n s" if "n \<in> set (ends re p s)" for n
    using less.prems[of 0 n] that by (simp add: prev_at_0)
  have rest: "replaceAll_from re repl b (prev_at p s w) (drop w s) = drop w s"
    if w: "0 < w" "w \<le> length s" for w b
  proof (rule less.hyps)
    show "length (drop w s) < length s" using w by simp
  next
    fix k n
    assume k: "k \<le> length (drop w s)"
      and n: "n \<in> set (ends re (prev_at (prev_at p s w) (drop w s) k) (drop k (drop w s)))"
    from k w have "w + k \<le> length s" by simp
    moreover from n have "n \<in> set (ends re (prev_at p s (w + k)) (drop (w + k) s))"
      by (simp add: prev_at_add add.commute)
    ultimately have "repl (take n (drop (w + k) s)) = take n (drop (w + k) s)"
      by (rule less.prems)
    then show "repl (take n (drop k (drop w s))) = take n (drop k (drop w s))"
      by (simp add: add.commute)
  qed
  let ?w = "snd (decodeRune s)"
  have skip: "(if s = [] then []
          else take ?w s @ replaceAll_from re repl False (prev_at p s ?w) (drop ?w s)) = s"
    using rest[of ?w False] decodeRune_width_pos[of s] decodeRune_width_le[of s] by simp
  show ?case
  proof (cases "ends re p s")
    case Nil
    then show ?thesis using skip by (simp add: replaceAll_from_nomatch)
  next
    case (Cons n ns)
    then have mem: "n \<in> set (ends re p s)" by simp
    show ?thesis
    proof (cases "n = 0")
      case True
      with here[OF mem] have "repl [] = []" by simp
      with Cons True skip show ?thesis by (simp add: replaceAll_from_empty)
    next
      case False
      from mem have "n \<le> length s" by (rule ends_le)
      with False rest[of n True] here[OF mem] Cons show ?thesis
        by (simp add: replaceAll_from_match)
    qed
  qed
qed


lemma runes_of_Nil_iff: "runes_of T = Some [] \<longleftrightarrow> T = []"
  by (subst runes_of.simps) auto

lemma runes_of_Cons_iff:
  "runes_of T = Some (r # rs) \<longleftrightarrow>
     T \<noteq> [] \<and> decodeRune T \<noteq> (RuneError, 1) \<and> fst (decodeRune T) = r
     \<and> runes_of (drop (snd (decodeRune T)) T) = Some rs"
  by (subst runes_of.simps) auto

lemma decodeRune_take:
  assumes "s \<noteq> []" "snd (decodeRune s) \<le> n"
  shows "decodeRune (take n s) = decodeRune s"
proof -
  from assms(1) obtain c cs where s: "s = c # cs" by (cases s) auto
  from assms decodeRune_width_pos[of s] have n: "0 < n" by simp
  then obtain n' where n': "n = Suc n'" by (cases n) auto
  show ?thesis
  proof (cases rule: decodeRune_Cons_cases[of c cs])
    case ascii
    then show ?thesis using s n' by (simp add: decodeRune_ascii)
  next
    case (wide x w)
    from wide(1) assms(2) s have "w \<le> n" by simp
    then have "take n s = take w (c # cs) @ take (n - w) (drop w s)"
      using s by (metis add_diff_cancel_left' le_Suc_ex take_add)
    with wide(7)[of "take (n - w) (drop w s)"] wide(1) s show ?thesis by simp
  next
    case invalid
    have "decodeRune (c # take n' cs) = (RuneError, 1)"
    proof (cases rule: decodeRune_Cons_cases[of c "take n' cs"])
      case ascii
      with invalid show ?thesis by simp
    next
      case invalid
      then show ?thesis by simp
    next
      case (wide x w)
      have "take w (c # take n' cs) = take w (c # cs)"
        using wide(3) by (simp add: take_Cons' min_def split: if_splits nat.splits)
      with wide(7)[of "drop w (c # cs)"] have "decodeRune (c # cs) = (x, w)" by simp
      with invalid wide(2) show ?thesis by simp
    qed
    with invalid s n' show ?thesis by simp
  qed
qed


lemma rune_step_nonword_filter:
  assumes "s \<noteq> []" "\<not> is_word_byte (hd s)"
  shows "filter is_word_byte (take (snd (decodeRune s)) s) = []"
    and "\<not> is_word_byte (last (take (snd (decodeRune s)) s))"
proof -
  from assms obtain c cs where s: "s = c # cs" and c: "\<not> is_word_byte c" by (cases s) auto
  from rune_step_nonword[OF c, of cs] s
  have all: "\<forall>b \<in> set (take (snd (decodeRune s)) s). \<not> is_word_byte b" by simp
  then show "filter is_word_byte (take (snd (decodeRune s)) s) = []"
    by (simp add: filter_empty_conv)
  have "take (snd (decodeRune s)) s \<noteq> []"
    using decodeRune_width_pos[of s] s by simp
  then have "last (take (snd (decodeRune s)) s) \<in> set (take (snd (decodeRune s)) s)"
    by (rule last_in_set)
  with all show "\<not> is_word_byte (last (take (snd (decodeRune s)) s))" by blast
qed

lemma same_rune_units:
  assumes "s \<noteq> []" "T \<noteq> []" "fst (decodeRune s) = fst (decodeRune T)"
    and "decodeRune T \<noteq> (RuneError, 1)"
  shows "snd (decodeRune s) \<le> snd (decodeRune T)"
    and "filter is_word_byte (take (snd (decodeRune s)) s)
           = filter is_word_byte (take (snd (decodeRune T)) T)"
    and "is_word_byte (hd s) = is_word_byte (hd T)"
    and "is_word_byte (last (take (snd (decodeRune s)) s))
           = is_word_byte (last (take (snd (decodeRune T)) T))"
proof -
  from assms obtain c cs d ds where s: "s = c # cs" and T: "T = d # ds"
    by (cases s; cases T) auto
  have "snd (decodeRune s) \<le> snd (decodeRune T)
      \<and> filter is_word_byte (take (snd (decodeRune s)) s)
           = filter is_word_byte (take (snd (decodeRune T)) T)
      \<and> is_word_byte (hd s) = is_word_byte (hd T)
      \<and> is_word_byte (last (take (snd (decodeRune s)) s))
           = is_word_byte (last (take (snd (decodeRune T)) T))"
  proof (cases rule: decodeRune_Cons_cases[of d ds])
    case invalid
    with assms(4) T show ?thesis by simp
  next
    case ascii
    note dT = ascii
    show ?thesis
    proof (cases rule: decodeRune_Cons_cases[of c cs])
      case ascii
      with dT assms(3) s T have "c = d" by simp
      with ascii dT s T show ?thesis by simp
    next
      case invalid
      with dT assms(3) s T show ?thesis by (simp add: RuneError_def)
    next
      case (wide x w)
      with dT assms(3) s T show ?thesis by simp
    qed
  next
    case (wide x wT)
    note dT = wide
    from dT(4) have nwd: "\<not> is_word_byte d" using word_byte_ascii[of d] by auto
    have Tn: "filter is_word_byte (take (snd (decodeRune T)) T) = []"
      "\<not> is_word_byte (last (take (snd (decodeRune T)) T))"
      using rune_step_nonword_filter[of T] nwd T by simp_all
    have nwc: "\<not> is_word_byte c \<and> snd (decodeRune s) \<le> wT"
    proof (cases rule: decodeRune_Cons_cases[of c cs])
      case ascii
      with dT(1,5) assms(3) s T show ?thesis by simp
    next
      case invalid
      then show ?thesis using word_byte_ascii[of c] dT(2) s by auto
    next
      case (wide x' w')
      with dT(1) assms(3) s T have "x' = x" by simp
      with wide(8) dT(8) have "w' = wT" by simp
      with wide(1,4) s show ?thesis using word_byte_ascii[of c] by auto
    qed
    have sn: "filter is_word_byte (take (snd (decodeRune s)) s) = []"
      "\<not> is_word_byte (last (take (snd (decodeRune s)) s))"
      using rune_step_nonword_filter[of s] nwc s by simp_all
    show ?thesis using nwc nwd Tn sn dT(1) s T by simp
  qed
  then show "snd (decodeRune s) \<le> snd (decodeRune T)"
    and "filter is_word_byte (take (snd (decodeRune s)) s)
           = filter is_word_byte (take (snd (decodeRune T)) T)"
    and "is_word_byte (hd s) = is_word_byte (hd T)"
    and "is_word_byte (last (take (snd (decodeRune s)) s))
           = is_word_byte (last (take (snd (decodeRune T)) T))"
    by blast+
qed

lemma literal_ok_False: "literal_ok False r x \<longleftrightarrow> x = r"
  by (simp add: literal_ok_def)

lemma literal_match_size:
  "runes_of T = Some rs \<Longrightarrow> n \<in> set (literal_ends False rs s) \<Longrightarrow>
   n \<le> length T
   \<and> length (filter is_word_byte (take n s)) = length (filter is_word_byte T)"
proof (induction rs arbitrary: T s n)
  case Nil
  then show ?case by (simp add: runes_of_Nil_iff)
next
  case (Cons r rs)
  let ?w = "snd (decodeRune s)" and ?wT = "snd (decodeRune T)"
  from Cons.prems(1) have T: "T \<noteq> []" "decodeRune T \<noteq> (RuneError, 1)"
    "fst (decodeRune T) = r" "runes_of (drop ?wT T) = Some rs"
    by (simp_all add: runes_of_Cons_iff)
  from Cons.prems(2) have s: "s \<noteq> []" "fst (decodeRune s) = r" "?w \<le> n"
    "n - ?w \<in> set (literal_ends False rs (drop ?w s))"
    by (simp_all add: literal_ends_Cons_mem literal_ok_False)
  from Cons.IH[OF T(4) s(4)]
  have ih: "n - ?w \<le> length (drop ?wT T)"
    "length (filter is_word_byte (take (n - ?w) (drop ?w s)))
       = length (filter is_word_byte (drop ?wT T))" by simp_all
  from s(2) T(3) have same: "fst (decodeRune s) = fst (decodeRune T)" by simp
  note u = same_rune_units[OF s(1) T(1) same T(2)]
  have wT: "?wT \<le> length T" by (rule decodeRune_width_le)
  have n: "n = ?w + (n - ?w)" using s(3) by simp
  have "take n s = take ?w s @ take (n - ?w) (drop ?w s)"
    by (subst n) (simp only: take_add)
  then have "length (filter is_word_byte (take n s))
      = length (filter is_word_byte (take ?wT T)) + length (filter is_word_byte (drop ?wT T))"
    using u(2) ih(2) by simp
  also have "\<dots> = length (filter is_word_byte (take ?wT T @ drop ?wT T))"
    by (simp only: filter_append length_append)
  finally have "length (filter is_word_byte (take n s)) = length (filter is_word_byte T)"
    by simp
  moreover from ih(1) u(1) wT s(3) have "n \<le> length T" by simp
  ultimately show ?case by simp
qed

lemma literal_match_first:
  assumes "runes_of T = Some rs" "n \<in> set (literal_ends False rs s)" "rs \<noteq> []"
  shows "0 < n" "s \<noteq> []" "T \<noteq> []" "is_word_byte (hd s) = is_word_byte (hd T)"
    "fst (decodeRune (take n s)) = fst (decodeRune T)"
proof -
  from assms(3) obtain r rs' where rs: "rs = r # rs'" by (cases rs) auto
  let ?w = "snd (decodeRune s)"
  from assms(1) rs have T: "T \<noteq> []" "decodeRune T \<noteq> (RuneError, 1)" "fst (decodeRune T) = r"
    by (simp_all add: runes_of_Cons_iff)
  from assms(2) rs have s: "s \<noteq> []" "fst (decodeRune s) = r" "?w \<le> n"
    by (simp_all add: literal_ends_Cons_mem literal_ok_False)
  from s(2) T(3) have same: "fst (decodeRune s) = fst (decodeRune T)" by simp
  show "s \<noteq> []" "T \<noteq> []" by fact+
  show "0 < n" using s(1,3) decodeRune_width_pos[of s] by simp
  show "is_word_byte (hd s) = is_word_byte (hd T)"
    by (rule same_rune_units(3)[OF s(1) T(1) same T(2)])
  show "fst (decodeRune (take n s)) = fst (decodeRune T)"
    using decodeRune_take[OF s(1) s(3)] same by simp
qed

lemma literal_ends_Nil_mem: "n \<in> set (literal_ends fc [] s) \<longleftrightarrow> n = 0"
  by simp

lemma literal_match_last:
  "runes_of T = Some rs \<Longrightarrow> n \<in> set (literal_ends False rs s) \<Longrightarrow> rs \<noteq> [] \<Longrightarrow>
   is_word_byte (last (take n s)) = is_word_byte (last T)"
proof (induction rs arbitrary: T s n)
  case Nil
  then show ?case by simp
next
  case (Cons r rs)
  let ?w = "snd (decodeRune s)" and ?wT = "snd (decodeRune T)"
  from Cons.prems(1) have T: "T \<noteq> []" "decodeRune T \<noteq> (RuneError, 1)"
    "fst (decodeRune T) = r" "runes_of (drop ?wT T) = Some rs"
    by (simp_all add: runes_of_Cons_iff)
  from Cons.prems(2) have s: "s \<noteq> []" "fst (decodeRune s) = r" "?w \<le> n"
    "n - ?w \<in> set (literal_ends False rs (drop ?w s))"
    by (simp_all add: literal_ends_Cons_mem literal_ok_False)
  from s(2) T(3) have same: "fst (decodeRune s) = fst (decodeRune T)" by simp
  note u = same_rune_units[OF s(1) T(1) same T(2)]
  have n: "n = ?w + (n - ?w)" using s(3) by simp
  have split: "take n s = take ?w s @ take (n - ?w) (drop ?w s)"
    by (subst n) (simp only: take_add)
  show ?case
  proof (cases "rs = []")
    case True
    with s(4) have "n = ?w" using s(3) by simp
    moreover from True T(4) have "drop ?wT T = []" by (simp add: runes_of_Nil_iff)
    then have "take ?wT T = T" by simp
    ultimately show ?thesis using u(4) by simp
  next
    case False
    note first = literal_match_first[OF T(4) s(4) False]
    from Cons.IH[OF T(4) s(4) False]
    have ih: "is_word_byte (last (take (n - ?w) (drop ?w s))) = is_word_byte (last (drop ?wT T))" .
    from first(1,2) have ne: "take (n - ?w) (drop ?w s) \<noteq> []" by simp
    have "last (take n s) = last (take (n - ?w) (drop ?w s))"
      using split ne by simp
    moreover have "last T = last (drop ?wT T)"
      using first(3) by (metis append_take_drop_id last_appendR)
    ultimately show ?thesis using ih by simp
  qed
qed


lemma length_trimLeft: "length (trimLeft s) \<le> length s"
proof (induction s rule: trimLeft.induct)
  case (1 s)
  show ?case
  proof (cases "s \<noteq> [] \<and> is_space_rune (fst (decodeRune s))")
    case True
    then have "trimLeft s = trimLeft (drop (snd (decodeRune s)) s)"
      by (subst trimLeft.simps) simp
    with "1.IH"[OF True] show ?thesis by simp
  next
    case False
    then have "trimLeft s = s" by (subst trimLeft.simps) auto
    then show ?thesis by simp
  qed
qed

lemma trimLeft_id: "s = [] \<or> \<not> is_space_rune (fst (decodeRune s)) \<Longrightarrow> trimLeft s = s"
  by (subst trimLeft.simps) auto

lemma trimLeft_length_id:
  assumes "length (trimLeft s) = length s"
  shows "s = [] \<or> \<not> is_space_rune (fst (decodeRune s))"
proof (rule ccontr)
  assume "\<not> (s = [] \<or> \<not> is_space_rune (fst (decodeRune s)))"
  then have c: "s \<noteq> []" "is_space_rune (fst (decodeRune s))" by simp_all
  then have "trimLeft s = trimLeft (drop (snd (decodeRune s)) s)"
    by (subst trimLeft.simps) simp
  then have "length (trimLeft s) \<le> length s - snd (decodeRune s)"
    using length_trimLeft[of "drop (snd (decodeRune s)) s"] by simp
  with decodeRune_width_pos[OF c(1)] c(1) assms show False by (cases s) auto
qed

lemma length_trimRight: "length (trimRight s) \<le> length s"
proof (induction s rule: trimRight.induct)
  case (1 s)
  show ?case
  proof (cases "filter (space_suffix s) [1, 2, 3, 4]")
    case Nil
    then have "trimRight s = s" by (subst trimRight.simps) simp
    then show ?thesis by simp
  next
    case (Cons k ks)
    then have "trimRight s = trimRight (take (length s - k) s)"
      by (subst trimRight.simps) simp
    with "1.IH"[OF Cons] show ?thesis by simp
  qed
qed

lemma trimRight_id:
  assumes "\<And>k. \<not> space_suffix s k"
  shows "trimRight s = s"
proof -
  have "filter (space_suffix s) [1, 2, 3, 4] = []"
    using assms by (simp only: filter_empty_conv) blast
  then show ?thesis by (subst trimRight.simps) simp
qed

lemma trimRight_length_id:
  assumes "length (trimRight s) = length s" "k \<in> set [1, 2, 3, 4]"
  shows "\<not> space_suffix s k"
proof
  assume "space_suffix s k"
  with assms(2) have "k \<in> set (filter (space_suffix s) [1, 2, 3, 4])"
    by (simp only: set_filter mem_Collect_eq)
  then obtain k' ks where f: "filter (space_suffix s) [1, 2, 3, 4] = k' # ks"
    by (cases "filter (space_suffix s) [1, 2, 3, 4]") auto
  then have "k' \<in> set (filter (space_suffix s) [1, 2, 3, 4])" by simp
  then have "k' \<in> set [1, 2, 3, 4] \<and> space_suffix s k'"
    by (simp only: set_filter mem_Collect_eq)
  then have k': "0 < k'" "k' \<le> length s" by (simp_all add: space_suffix_def)
  from f have "trimRight s = trimRight (take (length s - k') s)"
    by (subst trimRight.simps) simp
  then have "length (trimRight s) \<le> length s - k'"
    using length_trimRight[of "take (length s - k') s"] by simp
  with k' assms(1) show False by simp
qed

lemma trimSpace_id_D:
  assumes "trimSpace T = T"
  shows "T = [] \<or> \<not> is_space_rune (fst (decodeRune T))"
    and "\<And>k. k \<in> set [1, 2, 3, 4] \<Longrightarrow> \<not> space_suffix T k"
proof -
  from assms have "length (trimRight (trimLeft T)) = length T" by (simp add: trimSpace_def)
  with length_trimRight[of "trimLeft T"] length_trimLeft[of T]
  have l: "length (trimLeft T) = length T" by simp
  then show a: "T = [] \<or> \<not> is_space_rune (fst (decodeRune T))" by (rule trimLeft_length_id)
  then have "trimLeft T = T" by (rule trimLeft_id)
  with assms have "trimRight T = T" by (simp add: trimSpace_def)
  then have "length (trimRight T) = length T" by simp
  then show "\<And>k. k \<in> set [1, 2, 3, 4] \<Longrightarrow> \<not> space_suffix T k"
    by (rule trimRight_length_id)
qed

lemma decodeRune_width_le_4: "snd (decodeRune s) \<le> 4"
proof (cases s)
  case Nil
  then show ?thesis by (simp add: decodeRune_def)
next
  case (Cons c cs)
  show ?thesis
  proof (cases rule: decodeRune_Cons_cases[of c cs])
    case (wide x w)
    then show ?thesis using Cons by (simp add: rune_width_def)
  qed (use Cons in simp_all)
qed

lemma literal_ends_le: "n \<in> set (literal_ends fc rs s) \<Longrightarrow> n \<le> length s"
  using ends_le[of n "literal_runes fc rs" None s] by (simp add: ends_literal_runes)

lemma literal_ends_0: "0 \<in> set (literal_ends fc rs s) \<Longrightarrow> rs = []"
proof (cases rs)
  case (Cons r rs')
  assume "0 \<in> set (literal_ends fc rs s)"
  with Cons have "s \<noteq> []" "snd (decodeRune s) \<le> 0" by (simp_all add: literal_ends_Cons_mem)
  with decodeRune_width_pos[of s] show ?thesis by simp
qed simp

lemma space_rune_start:
  assumes "u \<noteq> []" "is_space_rune (fst (decodeRune u))"
  shows "\<not> continuation (hd u)"
proof -
  from assms(1) obtain c cs where u: "u = c # cs" by (cases u) auto
  show ?thesis
  proof (cases rule: decodeRune_Cons_cases[of c cs])
    case ascii
    then show ?thesis using u by (simp add: continuation_def)
  next
    case invalid
    with assms(2) u show ?thesis by (simp add: RuneError_def is_space_rune_def)
  next
    case (wide x w)
    then show ?thesis using u by (simp add: continuation_def)
  qed
qed


lemma literal_match_space_suffix:
  "n \<in> set (literal_ends False rs s) \<Longrightarrow> space_suffix (take n s) k \<Longrightarrow>
   rs \<noteq> [] \<and> is_space_rune (last rs)"
proof (induction rs arbitrary: s n)
  case Nil
  then show ?case by (auto simp: space_suffix_def)
next
  case (Cons r rs)
  let ?w = "snd (decodeRune s)"
  from Cons.prems(1) have s: "s \<noteq> []" "fst (decodeRune s) = r" "?w \<le> n"
    "n - ?w \<in> set (literal_ends False rs (drop ?w s))"
    by (simp_all add: literal_ends_Cons_mem literal_ok_False)
  define m where "m = n - ?w"
  from s(3) have n: "n = ?w + m" by (simp add: m_def)
  from literal_ends_le[OF Cons.prems(1)] have nl: "n \<le> length s" .
  from nl n have wl: "?w \<le> length s" and ml: "m \<le> length (drop ?w s)" by simp_all
  from nl have ln: "length (take n s) = n" by simp
  from Cons.prems(2) ln have k: "0 < k" "k \<le> n"
    "snd (decodeRune (drop (n - k) (take n s))) = k"
    "is_space_rune (fst (decodeRune (drop (n - k) (take n s))))"
    by (simp_all add: space_suffix_def)
  have split: "take n s = take ?w s @ take m (drop ?w s)"
    unfolding n by (simp add: take_add)
  show ?case
  proof (cases "k \<le> m")
    case True
    with n have "n - k = ?w + (m - k)" by simp
    then have "drop (n - k) (take n s) = drop (m - k) (take m (drop ?w s))"
      unfolding split using wl by simp
    with k True ml have "space_suffix (take m (drop ?w s)) k"
      by (simp add: space_suffix_def)
    from Cons.IH[OF s(4)[folded m_def] this] show ?thesis by simp
  next
    case False
    define j where "j = n - k"
    from False n k have j: "j < ?w" "j + k = n" by (simp_all add: j_def)
    let ?u = "drop j (take n s)"
    from j k ln have u: "?u \<noteq> []" by simp
    from j s(3) nl have hd: "hd ?u = s ! j"
      by (simp add: hd_drop_conv_nth)
    from k(4) have "\<not> continuation (hd ?u)"
      unfolding j_def[symmetric] by (rule space_rune_start[OF u])
    with hd have nc: "\<not> continuation (s ! j)" by simp
    have j0: "j = 0"
    proof (rule ccontr)
      assume "j \<noteq> 0"
      then have jp: "0 < j" by simp
      from s(1) obtain c cs where sc: "s = c # cs" by (cases s) auto
      show False
      proof (cases rule: decodeRune_Cons_cases[of c cs])
        case ascii
        with j jp sc show ?thesis by simp
      next
        case invalid
        with j jp sc show ?thesis by simp
      next
        case (wide x w)
        from wide(1) j sc have "j < w" by simp
        from wide(6)[OF jp this] nc sc show ?thesis by simp
      qed
    qed
    from k(3,4) have "snd (decodeRune (take n s)) = k" "is_space_rune (fst (decodeRune (take n s)))"
      unfolding j_def[symmetric] j0 by simp_all
    with decodeRune_take[OF s(1,3)] have "?w = k" "is_space_rune (fst (decodeRune s))" by simp_all
    with j j0 n s(2) have "m = 0" "is_space_rune r" by simp_all
    with s(4) have "rs = []" by (auto simp: m_def dest: literal_ends_0)
    with \<open>is_space_rune r\<close> show ?thesis by simp
  qed
qed

lemma runes_of_space_suffix:
  "runes_of T = Some rs \<Longrightarrow> rs \<noteq> [] \<Longrightarrow> is_space_rune (last rs) \<Longrightarrow>
   \<exists>k \<in> set [1, 2, 3, 4]. space_suffix T k"
proof (induction rs arbitrary: T)
  case Nil
  then show ?case by simp
next
  case (Cons r rs)
  let ?wT = "snd (decodeRune T)"
  from Cons.prems(1) have T: "T \<noteq> []" "decodeRune T \<noteq> (RuneError, 1)"
    "fst (decodeRune T) = r" "runes_of (drop ?wT T) = Some rs"
    by (simp_all add: runes_of_Cons_iff)
  have wpos: "0 < ?wT" by (rule decodeRune_width_pos[OF T(1)])
  have wle: "?wT \<le> length T" by (rule decodeRune_width_le)
  show ?case
  proof (cases "rs = []")
    case True
    with T(4) have "?wT = length T" using wle by (simp add: runes_of_Nil_iff)
    with wpos T(3) Cons.prems(3) True have "space_suffix T ?wT"
      by (simp add: space_suffix_def)
    moreover from wpos decodeRune_width_le_4[of T] have "?wT \<in> set [1, 2, 3, 4]"
      by (simp only: list.set insert_iff empty_iff) arith
    ultimately show ?thesis by blast
  next
    case False
    with Cons.prems(3) have "is_space_rune (last rs)" by simp
    from Cons.IH[OF T(4) False this] obtain k where
      k: "k \<in> set [1, 2, 3, 4]" "space_suffix (drop ?wT T) k" by blast
    from k(2) have k2: "0 < k" "k \<le> length T - ?wT"
      "snd (decodeRune (drop (length T - ?wT - k) (drop ?wT T))) = k"
      "is_space_rune (fst (decodeRune (drop (length T - ?wT - k) (drop ?wT T))))"
      by (simp_all add: space_suffix_def)
    from k2(2) wle have "length T - ?wT - k + ?wT = length T - k" by simp
    then have "drop (length T - ?wT - k) (drop ?wT T) = drop (length T - k) T"
      by (simp only: drop_drop)
    with k2 have "space_suffix T k" by (simp add: space_suffix_def)
    with k(1) show ?thesis by blast
  qed
qed

lemma detokenize_regex_mem:
  "n \<in> set (ends (concat_re [WordBoundary, literal_runes False rs, WordBoundary]) p s) \<longleftrightarrow>
   at_word_boundary p s \<and> n \<in> set (literal_ends False rs s) \<and> boundary p s n"
proof -
  have "concat_re [WordBoundary, literal_runes False rs, WordBoundary]
          = Concat WordBoundary (Concat (literal_runes False rs) WordBoundary)"
    by simp
  then show ?thesis
    by (simp only: ends_WordBoundary_Concat ends_Concat_WordBoundary ends_literal_runes) auto
qed

lemma trimSpace_match:
  assumes T: "runes_of T = Some rs" "trimSpace T = T"
    and n: "n \<in> set (literal_ends False rs s)"
  shows "trimSpace (take n s) = take n s"
proof -
  have left: "trimLeft (take n s) = take n s"
  proof (cases "rs = []")
    case True
    with n have "n = 0" by simp
    then show ?thesis by (simp add: trimLeft_id)
  next
    case False
    from literal_match_first[OF T(1) n False] trimSpace_id_D(1)[OF T(2)]
    have "\<not> is_space_rune (fst (decodeRune (take n s)))" by simp
    then show ?thesis by (simp add: trimLeft_id)
  qed
  have right: "trimRight (take n s) = take n s"
  proof (rule trimRight_id)
    fix k
    show "\<not> space_suffix (take n s) k"
    proof
      assume "space_suffix (take n s) k"
      from literal_match_space_suffix[OF n this] runes_of_space_suffix[OF T(1)]
      obtain k' where "k' \<in> set [1, 2, 3, 4]" "space_suffix T k'" by blast
      with trimSpace_id_D(2)[OF T(2)] show False by blast
    qed
  qed
  from left right show ?thesis by (simp add: trimSpace_def)
qed

lemma detokenize_fixed:
  assumes "runes_of T = Some rs" "trimSpace T = T"
  shows "detokenize D T = Inr D"
proof -
  have "replaceAll_from (concat_re [WordBoundary, literal_runes False rs, WordBoundary])
          trimSpace False None D = D"
  proof (rule replaceAll_from_unchanged)
    fix k n
    assume "n \<in> set (ends (concat_re [WordBoundary, literal_runes False rs, WordBoundary])
                      (prev_at None D k) (drop k D))"
    then have "n \<in> set (literal_ends False rs (drop k D))"
      by (simp only: detokenize_regex_mem)
    from trimSpace_match[OF assms this]
    show "trimSpace (take n (drop k D)) = take n (drop k D)" .
  qed
  with assms(1) show ?thesis
    by (simp add: detokenize_def detokenize_regex_def replaceAll_def)
qed

section \<open>detokenize after tokenize\<close>

text \<open>
  The output of \<open>tokenize\<close> is a sequence of copies of the token and of non-word bytes,
  two copies never being adjacent.  So a window of it that is one byte longer than the
  token has no more word bytes than the token, and a token that starts or ends with
  white space has no match between word boundaries there: \<open>detokenize\<close> returns the
  output of \<open>tokenize\<close> as it is.
\<close>

lemma tokenize_tokenize_spec: "tokenize D T = tokenize_spec D T"
  by (simp add: tokenize_def replaceAll_def tokenize_scan word_before_def)

lemma wc_take_mono: "j \<le> k \<Longrightarrow> wc (take j s) \<le> wc (take k s)"
proof -
  assume "j \<le> k"
  then have "take k s = take j s @ take (k - j) (drop j s)"
    by (metis le_add_diff_inverse take_add)
  then show ?thesis by simp
qed

lemma wc_take_le: "wc (take k s) \<le> wc s"
  using wc_take_mono[of k "length s" s] by (cases "k \<le> length s") simp_all

lemma wc_take_drop: "wc (take k s) + wc (drop k s) = wc s"
proof -
  have "wc (take k s @ drop k s) = wc s" by simp
  then show ?thesis by (simp only: filter_append length_append)
qed

lemma tokenize_spec_prefix_words:
  "k \<le> length T \<Longrightarrow> wc (take k (tokenize_spec D T)) \<le> wc (take k T)"
proof (induction D T arbitrary: k rule: tokenize_spec.induct)
  case (1 T)
  then show ?case by simp
next
  case (2 c cs T)
  show ?case
  proof (cases "is_word_byte c")
    case True
    with "2.prems" show ?thesis by simp
  next
    case False
    show ?thesis
    proof (cases k)
      case 0
      then show ?thesis by simp
    next
      case (Suc k')
      with "2.prems" have "wc (take k' (tokenize_spec cs T)) \<le> wc (take k' T)"
        by (intro "2.IH"(2)[OF False]) simp
      also have "\<dots> \<le> wc (take k T)" using Suc by (intro wc_take_mono) simp
      finally show ?thesis using False Suc by simp
    qed
  qed
qed

lemma tokenize_spec_after_separator:
  assumes "D = [] \<or> \<not> is_word_byte (hd D)" "j \<le> length T + 1"
  shows "wc (take j (tokenize_spec D T)) \<le> wc (take (j - 1) T)"
proof (cases D)
  case Nil
  then show ?thesis by simp
next
  case (Cons d ds)
  with assms(1) have d: "\<not> is_word_byte d" by simp
  show ?thesis
  proof (cases j)
    case 0
    then show ?thesis by simp
  next
    case (Suc j')
    with assms(2) have "j' \<le> length T" by simp
    from tokenize_spec_prefix_words[OF this, of ds] show ?thesis
      using Cons d Suc by simp
  qed
qed

lemma sep_start_dropWhile:
  "dropWhile is_word_byte cs = [] \<or> \<not> is_word_byte (hd (dropWhile is_word_byte cs))"
  using hd_dropWhile[of is_word_byte cs] by blast

lemma tokenize_spec_window:
  "L \<le> length T + 1 \<Longrightarrow> wc (take L (drop k (tokenize_spec D T))) \<le> wc T"
proof (induction D T arbitrary: k rule: tokenize_spec.induct)
  case (1 T)
  then show ?case by simp
next
  case (2 c cs T)
  show ?case
  proof (cases "is_word_byte c")
    case False
    show ?thesis
    proof (cases k)
      case 0
      have "wc (take L (tokenize_spec (c # cs) T)) \<le> wc (take (L - 1) T)"
        by (rule tokenize_spec_after_separator) (use False "2.prems" in simp_all)
      also have "\<dots> \<le> wc T" by (rule wc_take_le)
      finally show ?thesis using 0 by simp
    next
      case (Suc k')
      from "2.IH"(2)[OF False "2.prems", of k'] show ?thesis using False Suc by simp
    qed
  next
    case True
    let ?X = "tokenize_spec (dropWhile is_word_byte cs) T"
    have X: "tokenize_spec (c # cs) T = T @ ?X" using True by simp
    show ?thesis
    proof (cases "length T \<le> k")
      case ge: True
      then have "drop k (T @ ?X) = drop (k - length T) ?X" by simp
      with "2.IH"(1)[OF True "2.prems", of "k - length T"] X show ?thesis by simp
    next
      case lt: False
      then have k: "k \<le> length T" by simp
      let ?j = "L - (length T - k)"
      from "2.prems" k have j: "?j \<le> length T + 1" "?j - 1 \<le> k" by simp_all
      have "take L (drop k (T @ ?X)) = take L (drop k T) @ take ?j ?X"
        using k by simp
      then have "wc (take L (drop k (T @ ?X))) = wc (take L (drop k T)) + wc (take ?j ?X)"
        by simp
      also have "wc (take L (drop k T)) \<le> wc (drop k T)" by (rule wc_take_le)
      also have "wc (take ?j ?X) \<le> wc (take (?j - 1) T)"
        by (rule tokenize_spec_after_separator[OF sep_start_dropWhile j(1)])
      also have "\<dots> \<le> wc (take k T)" by (rule wc_take_mono[OF j(2)])
      finally have "wc (take L (drop k (T @ ?X))) \<le> wc (drop k T) + wc (take k T)" by simp
      with wc_take_drop[of k T] X show ?thesis by simp
    qed
  qed
qed


lemma space_rune_not_word:
  assumes "s \<noteq> []" "is_space_rune (fst (decodeRune s))"
  shows "\<not> is_word_byte (hd s)"
proof -
  from assms(1) obtain c cs where s: "s = c # cs" by (cases s) auto
  show ?thesis
  proof (cases rule: decodeRune_Cons_cases[of c cs])
    case ascii
    with assms(2) s show ?thesis
      by (auto simp: is_space_rune_def is_word_byte_def is_word_rune_def)
  next
    case invalid
    with assms(2) s show ?thesis by (simp add: RuneError_def is_space_rune_def)
  next
    case (wide x w)
    from wide(4) word_byte_ascii[of c] s show ?thesis by auto
  qed
qed

lemma space_suffix_not_word:
  assumes "space_suffix T k"
  shows "T \<noteq> []" "\<not> is_word_byte (last T)"
proof -
  let ?u = "drop (length T - k) T"
  from assms have k: "0 < k" "k \<le> length T" "snd (decodeRune ?u) = k"
    "is_space_rune (fst (decodeRune ?u))"
    by (simp_all add: space_suffix_def)
  from k(1,2) show T: "T \<noteq> []" by auto
  from k(1,2) have u: "?u \<noteq> []" "length ?u = k" by simp_all
  from u(1) T have last: "last T = last ?u" by simp
  from u(1) obtain c cs where uc: "?u = c # cs" by (cases ?u) auto
  have "\<not> is_word_byte (last ?u)"
  proof (cases rule: decodeRune_Cons_cases[of c cs])
    case ascii
    with k(3) uc u(2) have "cs = []" by simp
    with space_rune_not_word[OF u(1) k(4)] uc show ?thesis by simp
  next
    case invalid
    with k(4) uc show ?thesis by (simp add: RuneError_def is_space_rune_def)
  next
    case (wide x w)
    from wide(1) k(3) uc have w: "w = k" by simp
    with wide(2) have "0 < k - 1" "k - 1 < w" by simp_all
    from wide(6)[OF this] have "continuation (?u ! (k - 1))" using uc by simp
    moreover from u have "last ?u = ?u ! (k - 1)" by (simp add: last_conv_nth)
    ultimately show ?thesis by (simp add: continuation_not_word)
  qed
  with last show "\<not> is_word_byte (last T)" by simp
qed

lemma trimSpace_changes:
  assumes "trimSpace T \<noteq> T"
  shows "T \<noteq> [] \<and> (\<not> is_word_byte (hd T) \<or> \<not> is_word_byte (last T))"
proof (cases "T \<noteq> [] \<and> is_space_rune (fst (decodeRune T))")
  case True
  with space_rune_not_word[of T] show ?thesis by simp
next
  case False
  then have left: "trimLeft T = T" by (intro trimLeft_id) auto
  have "filter (space_suffix T) [1, 2, 3, 4] \<noteq> []"
  proof
    assume "filter (space_suffix T) [1, 2, 3, 4] = []"
    then have "trimRight T = T" by (subst trimRight.simps) simp
    with left assms show False by (simp add: trimSpace_def)
  qed
  then obtain k ks where "filter (space_suffix T) [1, 2, 3, 4] = k # ks"
    by (cases "filter (space_suffix T) [1, 2, 3, 4]") auto
  then have "k \<in> set (filter (space_suffix T) [1, 2, 3, 4])" by simp
  then have "space_suffix T k" by (simp only: set_filter mem_Collect_eq)
  from space_suffix_not_word[OF this] show ?thesis by simp
qed

lemma no_match_in_tokenize_spec:
  assumes rs: "runes_of T = Some rs"
    and T: "T \<noteq> []" "\<not> is_word_byte (hd T) \<or> \<not> is_word_byte (last T)"
    and n: "n \<in> set (ends (concat_re [WordBoundary, literal_runes False rs, WordBoundary])
                        (prev_at None (tokenize_spec D T) k) (drop k (tokenize_spec D T)))"
  shows False
proof -
  let ?X = "tokenize_spec D T"
  let ?s = "drop k ?X"
  from rs T(1) have ne: "rs \<noteq> []" by (auto simp: runes_of_Nil_iff)
  from n have b: "at_word_boundary (prev_at None ?X k) ?s"
    and m: "n \<in> set (literal_ends False rs ?s)" and e: "boundary (prev_at None ?X k) ?s n"
    by (simp_all only: detokenize_regex_mem)
  from literal_match_size[OF rs m] have size: "n \<le> length T" "wc (take n ?s) = wc T"
    by simp_all
  from literal_match_first[OF rs m ne] have first: "0 < n" "?s \<noteq> []"
    "is_word_byte (hd ?s) = is_word_byte (hd T)" by simp_all
  from literal_match_last[OF rs m ne] have last: "is_word_byte (last (take n ?s)) = is_word_byte (last T)" .
  from literal_ends_le[OF m] have nl: "n \<le> length ?s" .
  from T(2) show False
  proof
    assume "\<not> is_word_byte (hd T)"
    with first have "\<not> word_after ?s" by (cases ?s) (simp_all add: word_after_def)
    with b have wb: "word_before (prev_at None ?X k)" by (simp add: at_word_boundary_def)
    then obtain k' where k': "k = Suc k'"
      by (cases k) (simp_all add: prev_at_def word_before_def)
    from first(2) k' have kl: "k' < length ?X" by simp
    then have tk: "take k ?X = take k' ?X @ [?X ! k']"
      unfolding k' by (rule take_Suc_conv_app_nth)
    with wb have w2: "is_word_byte (?X ! k')" by (simp add: prev_at_def word_before_def)
    from kl have "drop k' ?X = ?X ! k' # ?s"
      unfolding k' by (simp add: Cons_nth_drop_Suc)
    then have "take (Suc n) (drop k' ?X) = ?X ! k' # take n ?s" by simp
    with w2 size(2) have "wc (take (Suc n) (drop k' ?X)) = Suc (wc T)" by simp
    moreover from size(1) have "wc (take (Suc n) (drop k' ?X)) \<le> wc T"
      by (intro tokenize_spec_window) simp
    ultimately show False by simp
  next
    assume "\<not> is_word_byte (last T)"
    with last have nw: "\<not> is_word_byte (last (take n ?s))" by simp
    from first(1,2) have "take n ?s \<noteq> []" by simp
    then have "prev_at (prev_at None ?X k) ?s n = Some (last (take n ?s))"
      by (simp add: prev_at_def)
    with e nw have wa: "word_after (drop n ?s)"
      by (simp add: boundary_def at_word_boundary_def word_before_def)
    then obtain c cs where d: "drop n ?s = c # cs" "is_word_byte c"
      by (cases "drop n ?s") (simp_all add: word_after_def)
    from d(1) have lt: "n < length ?s" by (cases "n < length ?s") simp_all
    from d(1) have "?s ! n = c" by (metis lt hd_drop_conv_nth list.sel(1))
    with lt have "take (Suc n) ?s = take n ?s @ [c]" by (simp add: take_Suc_conv_app_nth)
    with d(2) size(2) have "wc (take (Suc n) ?s) = Suc (wc T)" by simp
    moreover from size(1) have "wc (take (Suc n) ?s) \<le> wc T"
      by (intro tokenize_spec_window) simp
    ultimately show False by simp
  qed
qed

lemma detokenize_tokenize_spec:
  assumes "runes_of T = Some rs"
  shows "detokenize (tokenize_spec D T) T = Inr (tokenize_spec D T)"
proof (cases "trimSpace T = T")
  case True
  with assms show ?thesis by (rule detokenize_fixed)
next
  case False
  from trimSpace_changes[OF False] have T: "T \<noteq> []"
    "\<not> is_word_byte (hd T) \<or> \<not> is_word_byte (last T)" by simp_all
  have "replaceAll_from (concat_re [WordBoundary, literal_runes False rs, WordBoundary])
          trimSpace False None (tokenize_spec D T) = tokenize_spec D T"
  proof (rule replaceAll_from_unchanged)
    fix k n
    assume "n \<in> set (ends (concat_re [WordBoundary, literal_runes False rs, WordBoundary])
                      (prev_at None (tokenize_spec D T) k) (drop k (tokenize_spec D T)))"
    from no_match_in_tokenize_spec[OF assms T this]
    show "trimSpace (take n (drop k (tokenize_spec D T))) = take n (drop k (tokenize_spec D T))" ..
  qed
  with assms show ?thesis
    by (simp add: detokenize_def detokenize_regex_def replaceAll_def)
qed

lemma only_tokens_append: "only_tokens T Y \<Longrightarrow> only_tokens T (T @ Y)"
proof (cases "T @ Y")
  case Nil
  then show ?thesis by simp
next
  case (Cons c cs)
  assume Y: "only_tokens T Y"
  show ?thesis
  proof (cases "T = []")
    case True
    with Y show ?thesis by simp
  next
    case False
    have "prefix T (c # cs)" unfolding Cons[symmetric] by simp
    moreover have "drop (length T) (c # cs) = Y" unfolding Cons[symmetric] by simp
    ultimately show ?thesis unfolding Cons using False Y by simp
  qed
qed

lemma only_tokens_tokenize_spec: "only_tokens T (tokenize_spec D T)"
proof (induction D T rule: tokenize_spec.induct)
  case (1 T)
  show ?case by simp
next
  case (2 c cs T)
  show ?case
  proof (cases "is_word_byte c")
    case True
    from "2.IH"(1)[OF True] show ?thesis using True by (simp add: only_tokens_append)
  next
    case False
    from "2.IH"(2)[OF False] show ?thesis using False by simp
  qed
qed

lemma detokenize_tokenize_inverse:
  assumes "detokenize (tokenize D T) T = Inr D"
  shows "tokenize D T = D" "only_tokens T D"
proof -
  from assms obtain rs where rs: "runes_of T = Some rs"
    by (cases "runes_of T") (simp_all add: detokenize_def detokenize_regex_def)
  from detokenize_tokenize_spec[OF rs, of D] assms
  show eq: "tokenize D T = D" by (simp add: tokenize_tokenize_spec)
  from only_tokens_tokenize_spec[of T D] eq show "only_tokens T D"
    by (simp add: tokenize_tokenize_spec)
qed

section \<open>Concrete runs and the switch on the mode\<close>




lemma detokenize_x_a_y: "detokenize ''x a y'' '' a '' = Inr ''xay''"
  by (simp add: detok_simps regex_defs eval_simps cong: map_weak_cong list.case_cong_weak)

lemma detokenize_Hello: "detokenize (tokenize ''Hello world'' ''***'') ''***'' = Inr ''*** ***''"
  by (simp add: tokenize_def detok_simps regex_defs eval_simps
        cong: map_weak_cong list.case_cong_weak)

lemma detokenize_a_a: "detokenize (tokenize ''a a'' ''a'') ''a'' = Inr ''a a''"
  by (simp add: tokenize_def detok_simps regex_defs eval_simps
        cong: map_weak_cong list.case_cong_weak)

lemma runes_of_invalid: "runes_of [CHR 0xFF] = None"
  by (simp add: runes_of.simps decodeRune_def lead_size_def RuneError_def)

lemma detokenize_invalid_token: "detokenize D [CHR 0xFF] = Inl RegexpPanic"
  by (simp add: detokenize_def detokenize_regex_def runes_of_invalid)

lemma transform_unknown_mode:
  "mode \<noteq> ''tokenize'' \<Longrightarrow> mode \<noteq> ''detokenize'' \<Longrightarrow> mode \<noteq> ''redact'' \<Longrightarrow>
   transform mode D T = Inl (UnknownMode mode)"
  by (simp add: transform_def)

lemma processFile_unknown_mode:
  "mode \<noteq> ''tokenize'' \<Longrightarrow> mode \<noteq> ''detokenize'' \<Longrightarrow> mode \<noteq> ''redact'' \<Longrightarrow>
   files file = Some D \<Longrightarrow>
   processFile outputFile writable files file mode T
     = ([Found file (fst (detect D)) (snd (detect D)), UnknownModeMessage mode], Return, files)"
  by (simp add: processFile_def transform_unknown_mode)

lemma transform_tokenize: "transform ''tokenize'' D T = Inr (tokenize D T)"
  by (simp add: transform_def)

lemma transform_redact: "transform ''redact'' D T = Inr (redact D)"
  by (simp add: transform_def)

lemma transform_detokenize: "transform ''detokenize'' D T = detokenize D T"
  by (simp add: transform_def)

lemma detokenize_succeeds_iff: "(\<exists>out. detokenize D T = Inr out) \<longleftrightarrow> runes_of T \<noteq> None"
  by (auto simp: detokenize_def detokenize_regex_def split: option.splits)

section \<open>The vocabulary of redact and of the detector, phrase by phrase\<close>










section \<open>The claims\<close>

text \<open>
  C1, as stated: for the input \<open>My SSN is 123-45-6789\<close>, \<open>redact\<close> returns
  \<open>My [redacted] is 123-45-6789\<close>, the word \<open>My\<close> being left untouched.  This is false:
  the pattern starts with the optional qualifier \<open>(?:[a-z]+\s)?\<close>, which takes \<open>My\<close>.
\<close>

theorem C1_counterexample:
  "redact ''My SSN is 123-45-6789'' \<noteq> ''My [redacted] is 123-45-6789''"
  by (simp add: redact_My_SSN)

text \<open>
  C1, amended: for the input \<open>My SSN is 123-45-6789\<close>, \<open>redact\<close> returns
  \<open>[redacted] is 123-45-6789\<close>: the phrase \<open>SSN\<close> is replaced together with the word
  \<open>My\<close> before it, and the digit sequence is left untouched.
\<close>

theorem C1_redact_SSN_with_qualifier:
  "redact ''My SSN is 123-45-6789'' = ''[redacted] is 123-45-6789''"
  by (rule redact_My_SSN)

text \<open>
  C2, as stated: for the input \<open>Patient medical record attached\<close>, \<open>redact\<close> returns
  \<open>Patient [redacted] attached\<close>.  This is false: \<open>Patient\<close> is taken as the qualifier.
\<close>

theorem C2_counterexample:
  "redact ''Patient medical record attached'' \<noteq> ''Patient [redacted] attached''"
  by (simp add: redact_Patient)

text \<open>
  C2, amended: for the input \<open>Patient medical record attached\<close>, \<open>redact\<close> returns
  \<open>[redacted] attached\<close>: the phrase \<open>medical record\<close> is replaced together with the
  word \<open>Patient\<close> before it, and the word \<open>attached\<close> is preserved.
\<close>

theorem C2_redact_medical_record_with_qualifier:
  "redact ''Patient medical record attached'' = ''[redacted] attached''"
  by (rule redact_Patient)

text \<open>
  C10: \<open>tokenize\<close> is not idempotent for the default token \<open>[TOKEN]\<close>: on the document
  \<open>Hello world\<close> the second application replaces the word \<open>TOKEN\<close> inside each
  placeholder again, which yields \<open>[[TOKEN]]\<close>.
\<close>

theorem C10_tokenize_not_idempotent:
  "tokenize ''Hello world'' ''[TOKEN]'' = ''[TOKEN] [TOKEN]''
   \<and> tokenize (tokenize ''Hello world'' ''[TOKEN]'') ''[TOKEN]'' = ''[[TOKEN]] [[TOKEN]]''
   \<and> (\<exists>D. tokenize (tokenize D ''[TOKEN]'') ''[TOKEN]'' \<noteq> tokenize D ''[TOKEN]'')"
proof -
  have twice: "tokenize (tokenize ''Hello world'' ''[TOKEN]'') ''[TOKEN]'' = ''[[TOKEN]] [[TOKEN]]''"
    by (simp only: tokenize_Hello tokenize_TOKEN)
  have "tokenize (tokenize ''Hello world'' ''[TOKEN]'') ''[TOKEN]''
          \<noteq> tokenize ''Hello world'' ''[TOKEN]''"
    by (simp add: tokenize_Hello tokenize_TOKEN)
  then show ?thesis using twice tokenize_Hello by blast
qed

text \<open>
  C5: for every document \<open>D\<close> and every token \<open>T\<close>, \<open>tokenize D T\<close> replaces every
  maximal run of word characters (ASCII letters, digits, underscore) by \<open>T\<close>, and every
  other byte of \<open>D\<close> is preserved in its place: \<open>tokenize\<close> computes \<open>tokenize_spec\<close>.
\<close>

theorem C5_tokenize_replaces_word_runs: "tokenize D T = tokenize_spec D T"
  by (simp add: tokenize_def replaceAll_def tokenize_scan word_before_def)



text \<open>
  C9 says that for the three recognised modes the transformation can never fail.  In
  mode \<open>detokenize\<close> with a token that is not valid UTF-8 (the byte 0xFF) the
  compilation of the pattern panics: nothing is transformed and no file is written.
\<close>

theorem C9_detokenize_panics_on_invalid_token:
  "transform ''detokenize'' ''abc'' [CHR 0xFF] = Inl RegexpPanic
   \<and> processFile outputFile writable [''f'' \<mapsto> ''abc''] ''f'' ''detokenize'' [CHR 0xFF]
       = ([Found ''f'' 0 0], Panic, [''f'' \<mapsto> ''abc''])"
proof -
  have "detect ''abc'' = (0, 0)"
    by (simp add: detect_def regex_defs eval_simps cong: map_weak_cong list.case_cong_weak)
  then show ?thesis
    by (simp add: processFile_def transform_detokenize detokenize_invalid_token)
qed

text \<open>
  C6, as stated: for every document \<open>D\<close> and every token \<open>T\<close>, \<open>detokenize D T\<close> returns
  \<open>D\<close> unchanged.  This is false for a token with white space around it: with the token
  \<open>a\<close> between two spaces, the match in \<open>x a y\<close> is replaced by its trimmed self and the
  result is \<open>xay\<close>.
\<close>

theorem C6_counterexample:
  "detokenize ''x a y'' '' a '' = Inr ''xay'' \<and> detokenize ''x a y'' '' a '' \<noteq> Inr ''x a y''"
  by (simp add: detokenize_x_a_y)

text \<open>
  C6, amended: for every document \<open>D\<close> and every token \<open>T\<close> that is valid UTF-8 and has
  no white space at its start or at its end (\<open>strings.TrimSpace\<close> returns \<open>T\<close> itself),
  \<open>detokenize D T\<close> returns \<open>D\<close> unchanged.
\<close>

theorem C6_detokenize_unchanged_for_trimmed_token:
  "runes_of T \<noteq> None \<Longrightarrow> trimSpace T = T \<Longrightarrow> detokenize D T = Inr D"
  by (auto intro: detokenize_fixed)

theorem C6_witness:
  "runes_of ''[TOKEN]'' \<noteq> None \<and> trimSpace ''[TOKEN]'' = ''[TOKEN]''
   \<and> detokenize ''a[TOKEN]b [TOKEN]'' ''[TOKEN]'' = Inr ''a[TOKEN]b [TOKEN]''"
proof -
  have valid: "runes_of ''[TOKEN]'' \<noteq> None"
    by (simp add: detok_simps eval_simps)
  have trimmed: "trimSpace ''[TOKEN]'' = ''[TOKEN]''"
    by (simp add: detok_simps eval_simps)
  from valid trimmed C6_detokenize_unchanged_for_trimmed_token [OF valid trimmed]
  show ?thesis by simp
qed

text \<open>
  C7: \<open>detokenize\<close> does not invert \<open>tokenize\<close>: for some document \<open>D\<close> and token \<open>T\<close>,
  \<open>detokenize (tokenize D T) T\<close> is not \<open>D\<close>.  Equality holds only in the degenerate
  case: if \<open>detokenize (tokenize D T) T\<close> returns \<open>D\<close>, then \<open>tokenize\<close> has left \<open>D\<close> as it
  is, and \<open>D\<close> consists solely of occurrences of \<open>T\<close> and of non-word bytes.
\<close>

theorem C7_detokenize_does_not_invert_tokenize:
  "(\<exists>D T. detokenize (tokenize D T) T \<noteq> Inr D)
   \<and> (\<forall>D T. detokenize (tokenize D T) T = Inr D \<longrightarrow> tokenize D T = D \<and> only_tokens T D)"
proof
  have "detokenize (tokenize ''Hello world'' ''***'') ''***'' \<noteq> Inr ''Hello world''"
    by (simp add: detokenize_Hello)
  then show "\<exists>D T. detokenize (tokenize D T) T \<noteq> Inr D" by blast
next
  show "\<forall>D T. detokenize (tokenize D T) T = Inr D \<longrightarrow> tokenize D T = D \<and> only_tokens T D"
    by (blast intro: detokenize_tokenize_inverse)
qed

theorem C7_witness:
  "detokenize (tokenize ''a a'' ''a'') ''a'' = Inr ''a a''
   \<and> tokenize ''a a'' ''a'' = ''a a'' \<and> only_tokens ''a'' ''a a''"
  using C7_detokenize_does_not_invert_tokenize detokenize_a_a by blast

end
